theory Spec2Isabelle
  imports Complex_Main "HOL-Library.Multiset" "HOL-Library.Sublist"
begin

section \<open>The search engine of Bazaar (bz-search-engine.c)\<close>

text \<open>
  The development embeds the search and ranking engine: the scoring function
  \<open>test_strings\<close> with its tokenizer, the shard worker \<open>query_sub_task_fiber\<close>,
  the coordinator \<open>query_task_fiber\<close>, the public operation
  \<open>bz_search_engine_query\<close> and the bias table built by \<open>biases_changed\<close>.

  Conventions of the embedding.
  \<^item> A C string is the list of its code points (\<open>gunichar\<close>, a natural number); the
    terminating NUL is not part of the list, and reading at the end of the list gives 0,
    as \<open>g_utf8_get_char\<close> does at the terminator. The text is taken to be valid UTF-8,
    so equality of byte strings is equality of code point lists.
  \<^item> A pointer into a string is the suffix that starts there: the code only walks
    forwards and reads up to the terminator. \<open>p < q\<close> on two pointers into one string
    is \<open>length q < length p\<close> on the suffixes.
  \<^item> A \<open>double\<close> is an exact real number, an infinity or NaN: rounding and overflow
    are left out, the special values are kept, since \<open>0.0 / 0.0\<close> does occur. What is
    proved about a score is stated through \<open>dadd\<close>, \<open>dmul\<close> and
    \<open>double_of_gsize_div\<close>, with the operations in the order in which the code
    performs them, and not through a regrouped sum.
  \<^item> The functions of GLib, libc and libm that the code calls are fields of a
    \<open>platform\<close> record that every operation takes.
  \<^item> Fibers and futures are run in sequence: a future that resolves is a returned value.
\<close>

subsection \<open>Doubles\<close>

datatype dbl = Fin real | PInf | MInf | NaN

fun dadd :: "dbl \<Rightarrow> dbl \<Rightarrow> dbl" where
  "dadd NaN _ = NaN"
| "dadd _ NaN = NaN"
| "dadd PInf MInf = NaN"
| "dadd MInf PInf = NaN"
| "dadd PInf _ = PInf"
| "dadd _ PInf = PInf"
| "dadd MInf _ = MInf"
| "dadd _ MInf = MInf"
| "dadd (Fin a) (Fin b) = Fin (a + b)"

fun dneg :: "dbl \<Rightarrow> dbl" where
  "dneg (Fin a) = Fin (- a)"
| "dneg PInf = MInf"
| "dneg MInf = PInf"
| "dneg NaN = NaN"

definition dsub :: "dbl \<Rightarrow> dbl \<Rightarrow> dbl" where
  "dsub a b = dadd a (dneg b)"

definition signed_inf :: "real \<Rightarrow> dbl" where
  \<comment> \<open>The product of an infinity and a finite factor of the given sign.\<close>
  "signed_inf a = (if a = 0 then NaN else if 0 < a then PInf else MInf)"

fun dmul :: "dbl \<Rightarrow> dbl \<Rightarrow> dbl" where
  "dmul NaN _ = NaN"
| "dmul _ NaN = NaN"
| "dmul (Fin a) (Fin b) = Fin (a * b)"
| "dmul (Fin a) PInf = signed_inf a"
| "dmul (Fin a) MInf = signed_inf (- a)"
| "dmul PInf (Fin b) = signed_inf b"
| "dmul MInf (Fin b) = signed_inf (- b)"
| "dmul PInf PInf = PInf"
| "dmul PInf MInf = MInf"
| "dmul MInf PInf = MInf"
| "dmul MInf MInf = PInf"

fun dgt :: "dbl \<Rightarrow> dbl \<Rightarrow> bool" where
  \<comment> \<open>\<open>a > b\<close>: false as soon as one side is NaN.\<close>
  "dgt NaN _ = False"
| "dgt _ NaN = False"
| "dgt (Fin a) (Fin b) = (b < a)"
| "dgt PInf PInf = False"
| "dgt PInf _ = True"
| "dgt MInf _ = False"
| "dgt (Fin a) PInf = False"
| "dgt (Fin a) MInf = True"

definition dlt :: "dbl \<Rightarrow> dbl \<Rightarrow> bool" where
  "dlt a b = dgt b a"

definition double_of_gsize_div :: "nat \<Rightarrow> nat \<Rightarrow> dbl" where
  \<comment> \<open>\<open>(double) a / (double) b\<close> for two unsigned integers.\<close>
  "double_of_gsize_div a b =
     (if b = 0 then (if a = 0 then NaN else PInf) else Fin (real a / real b))"

definition G_MAXINT :: dbl where
  "G_MAXINT = Fin 2147483647"

subsection \<open>Strings and the platform\<close>

type_synonym gunichar = nat
type_synonym utf8 = "gunichar list"

record 'rx platform =
  is_space_separator :: "gunichar \<Rightarrow> bool"
    \<comment> \<open>\<open>g_unichar_type (c) == G_UNICODE_SPACE_SEPARATOR\<close>\<close>
  g_unichar_tolower :: "gunichar \<Rightarrow> gunichar"
  strcasecmp_eq :: "utf8 \<Rightarrow> utf8 \<Rightarrow> bool"
    \<comment> \<open>\<open>strcasecmp (a, b) == 0\<close>\<close>
  g_regex_new :: "utf8 \<Rightarrow> 'rx option"
    \<comment> \<open>with \<open>G_REGEX_OPTIMIZE\<close>; \<open>None\<close> is the NULL of a pattern that does not compile\<close>
  g_regex_match :: "'rx \<Rightarrow> utf8 \<Rightarrow> bool"
    \<comment> \<open>with \<open>G_REGEX_MATCH_DEFAULT\<close>\<close>
  g_regex_replace :: "'rx \<Rightarrow> utf8 \<Rightarrow> utf8 \<Rightarrow> utf8 option"
    \<comment> \<open>regex, subject, replacement; \<open>None\<close> is the NULL of a failed replacement\<close>
  pow :: "dbl \<Rightarrow> dbl \<Rightarrow> dbl"
  g_get_num_processors :: nat

definition g_utf8_get_char :: "utf8 \<Rightarrow> gunichar" where
  "g_utf8_get_char p = (case p of [] \<Rightarrow> 0 | c # _ \<Rightarrow> c)"

definition gsize_sub :: "nat \<Rightarrow> nat \<Rightarrow> nat" where
  \<comment> \<open>\<open>a - b\<close> on two \<open>gsize\<close> values (64 bits): the difference wraps around.\<close>
  "gsize_sub a b = (if b \<le> a then a - b else 2 ^ 64 - (b - a))"

definition gsize_mul :: "nat \<Rightarrow> nat \<Rightarrow> nat" where
  "gsize_mul a b = (a * b) mod 2 ^ 64"

subsection \<open>The tokenizer\<close>

text \<open>
  \<open>utf8_skip_to_next_of_class (&s, G_UNICODE_SPACE_SEPARATOR, &read_utf8)\<close>: the loop
  runs over the pointer \<open>p\<close>; the result is the new \<open>*s\<close>, the returned pointer and
  \<open>*read_utf8\<close>. When the loop ends at the terminator the function returns
  \<open>*s + strlen (*s)\<close>, the end of the string.
\<close>

fun utf8_skip_loop :: "'rx platform \<Rightarrow> utf8 \<Rightarrow> utf8 \<Rightarrow> bool \<Rightarrow> nat \<Rightarrow> utf8 \<times> utf8 \<times> nat" where
  "utf8_skip_loop P [] s skipped n = (s, [], n)"
| "utf8_skip_loop P (c # cs) s skipped n =
     (if is_space_separator P c
      then (if skipped then (s, c # cs, n) else utf8_skip_loop P cs s skipped n)
      else utf8_skip_loop P cs (if skipped then s else c # cs) True (Suc n))"

definition utf8_skip_to_next_of_class :: "'rx platform \<Rightarrow> utf8 \<Rightarrow> utf8 \<times> utf8 \<times> nat" where
  "utf8_skip_to_next_of_class P s = utf8_skip_loop P s s False 0"

lemma utf8_skip_loop_end_le:
  "utf8_skip_loop P p s skipped n = (s', e, m) \<Longrightarrow> length e \<le> length p"
  by (induction p arbitrary: s skipped n) (auto split: if_splits simp: le_Suc_eq)

lemma utf8_skip_to_next_of_class_shorter:
  assumes "utf8_skip_to_next_of_class P s = (s', e, m)" and "s' \<noteq> []"
  shows "length e < length s"
proof (cases s)
  case Nil
  with assms show ?thesis by (simp add: utf8_skip_to_next_of_class_def)
next
  case (Cons c cs)
  show ?thesis
  proof (cases "is_space_separator P c")
    case True
    with assms Cons have "utf8_skip_loop P cs s False 0 = (s', e, m)"
      by (simp add: utf8_skip_to_next_of_class_def)
    from utf8_skip_loop_end_le [OF this] Cons show ?thesis by simp
  next
    case False
    with assms Cons have "utf8_skip_loop P cs s True (Suc 0) = (s', e, m)"
      by (simp add: utf8_skip_to_next_of_class_def)
    from utf8_skip_loop_end_le [OF this] Cons show ?thesis by simp
  qed
qed

text \<open>
  \<open>UTF8_FOREACH_TOKEN_FORWARDS (start, end, s, &len)\<close>: the triples
  \<open>(start, end, len)\<close> the body of the loop runs with, in order. The loop goes on
  while \<open>*start != '\0'\<close> and continues from \<open>end\<close>.
\<close>

function utf8_tokens :: "'rx platform \<Rightarrow> utf8 \<Rightarrow> (utf8 \<times> utf8 \<times> nat) list" where
  "utf8_tokens P s =
     (case utf8_skip_to_next_of_class P s of
        (start, end, len) \<Rightarrow>
          if start = [] then [] else (start, end, len) # utf8_tokens P end)"
  by pat_completeness auto
termination
  by (relation "measure (\<lambda>(P, s). length s)")
     (auto dest: utf8_skip_to_next_of_class_shorter [OF sym])

declare utf8_tokens.simps [simp del]

subsection \<open>The scoring function\<close>

text \<open>
  The innermost loop of \<open>test_strings\<close>, over the characters of the query token:
  \<open>True\<close> when \<open>match\<close> is still set at its end. The character of the field is read
  at \<open>against_check_ptr\<close>, which moves on after every equal pair.
\<close>

fun query_chars_loop :: "'rx platform \<Rightarrow> utf8 \<Rightarrow> utf8 \<Rightarrow> utf8 \<Rightarrow> bool" where
  "query_chars_loop P [] query_tok_end against_check_ptr = True"
| "query_chars_loop P (q # qs) query_tok_end against_check_ptr =
     (if length query_tok_end < length (q # qs)
      then (if g_unichar_tolower P (g_utf8_get_char against_check_ptr) \<noteq> g_unichar_tolower P q
            then False
            else query_chars_loop P qs query_tok_end (tl against_check_ptr))
      else True)"

text \<open>
  The loop over the start offsets in the field token: the value of \<open>match\<close> when it
  is left. \<open>consumed\<close> counts the offsets tried.
\<close>

fun against_chars_loop ::
  "'rx platform \<Rightarrow> utf8 \<Rightarrow> utf8 \<Rightarrow> nat \<Rightarrow> utf8 \<Rightarrow> utf8 \<Rightarrow> nat \<Rightarrow> nat \<Rightarrow> bool" where
  "against_chars_loop P [] against_tok_end against_len query_tok_start query_tok_end query_len consumed = False"
| "against_chars_loop P (a # as) against_tok_end against_len query_tok_start query_tok_end query_len consumed =
     (if length against_tok_end < length (a # as)
      then (if gsize_sub against_len consumed < query_len then False
            else if query_chars_loop P query_tok_start query_tok_end (a # as) then True
            else against_chars_loop P as against_tok_end against_len
                   query_tok_start query_tok_end query_len (Suc consumed))
      else False)"

text \<open>
  The loop over the field tokens for one query token: the running score and
  \<open>query_token_has_match\<close>.
\<close>

fun against_tokens_loop ::
  "'rx platform \<Rightarrow> (utf8 \<times> utf8 \<times> nat) list \<Rightarrow> utf8 \<Rightarrow> utf8 \<Rightarrow> nat \<Rightarrow> int \<Rightarrow> dbl \<Rightarrow> bool \<Rightarrow> dbl \<times> bool" where
  "against_tokens_loop P [] query_tok_start query_tok_end query_len accept_min_size score has_match =
     (score, has_match)"
| "against_tokens_loop P ((against_tok_start, against_tok_end, against_len) # rest)
     query_tok_start query_tok_end query_len accept_min_size score has_match =
     (if 0 < accept_min_size \<and> int against_len < accept_min_size
      then against_tokens_loop P rest query_tok_start query_tok_end query_len accept_min_size
             score has_match
      else if against_chars_loop P against_tok_start against_tok_end against_len
                query_tok_start query_tok_end query_len 0
      then against_tokens_loop P rest query_tok_start query_tok_end query_len accept_min_size
             (dadd score (double_of_gsize_div (gsize_mul query_len query_len) against_len)) True
      else against_tokens_loop P rest query_tok_start query_tok_end query_len accept_min_size
             score has_match)"

text \<open>The loop over the query tokens: a token with no match sets the score to 0 and leaves.\<close>

fun query_tokens_loop ::
  "'rx platform \<Rightarrow> (utf8 \<times> utf8 \<times> nat) list \<Rightarrow> utf8 \<Rightarrow> int \<Rightarrow> dbl \<Rightarrow> dbl" where
  "query_tokens_loop P [] against accept_min_size score = score"
| "query_tokens_loop P ((query_tok_start, query_tok_end, query_len) # rest) against accept_min_size score =
     (case against_tokens_loop P (utf8_tokens P against) query_tok_start query_tok_end query_len
             accept_min_size score False of
        (score', has_match) \<Rightarrow>
          if \<not> has_match then Fin 0
          else query_tokens_loop P rest against accept_min_size score')"

definition test_strings :: "'rx platform \<Rightarrow> utf8 \<Rightarrow> utf8 \<Rightarrow> int \<Rightarrow> dbl" where
  "test_strings P query against accept_min_size =
     query_tokens_loop P (utf8_tokens P query) against accept_min_size (Fin 0)"

subsection \<open>Candidates, bias specifications and the bias table\<close>

text \<open>
  A candidate (\<open>BzEntryGroup\<close>) as the engine reads it: five strings, each of which may
  be NULL, and the searchable flag.
\<close>

record entry_group =
  group_id :: "utf8 option"
  group_title :: "utf8 option"
  group_developer :: "utf8 option"
  group_description :: "utf8 option"
  group_search_tokens :: "utf8 option"
  group_searchable :: bool

text \<open>
  A bias specification (\<open>BzSearchBias\<close>) as its five getters return it; a function is
  its two parameters (slope or factor first, then the intercept).
\<close>

record search_bias =
  spec_regex :: "utf8 option"
  spec_convert_to :: "utf8 option"
  spec_boost_appids :: "utf8 list option"
  spec_linear_boost :: "(dbl \<times> dbl) option"
  spec_exponential_boost :: "(dbl \<times> dbl) option"

datatype boost_kind = LINEAR | EXPONENTIAL

text \<open>
  \<open>BiasData\<close>. The two structures of the anonymous union share their storage:
  \<open>linear_boost.slope\<close> and \<open>exponential_boost.factor\<close> are one field, the two
  \<open>y_intercept\<close> the other. The hash table \<open>boost\<close> holds keys only: a set.
\<close>

record 'rx bias_data =
  invalid :: bool
  regex :: "'rx option"
  convert_to :: "utf8 option"
  boost :: "utf8 set option"
  boost_kind :: boost_kind
  slope_or_factor :: dbl
  y_intercept :: dbl

definition bias_data_new :: "'rx bias_data" where
  \<comment> \<open>The constructor comes from the macro \<open>BZ_DEFINE_DATA\<close> of bz-util.h, which is not
      among the sources. It is taken to return zeroed memory, as the code needs: no path
      clears \<open>invalid\<close> or sets a pointer to NULL. Zero is \<open>LINEAR\<close> in the enumeration.\<close>
  "bias_data_new = \<lparr> invalid = False, regex = None, convert_to = None, boost = None,
     boost_kind = LINEAR, slope_or_factor = Fin 0, y_intercept = Fin 0 \<rparr>"

definition SKIP :: "'rx bias_data" where
  "SKIP = bias_data_new \<lparr> invalid := True \<rparr>"

text \<open>The body of the loop of \<open>biases_changed\<close>: the entry inserted for one specification.\<close>

definition bias_data_of :: "'rx platform \<Rightarrow> search_bias \<Rightarrow> 'rx bias_data" where
  "bias_data_of P bias =
     (if spec_regex bias = None \<or>
         (spec_convert_to bias = None \<and>
          (spec_boost_appids bias = None \<or>
           (spec_linear_boost bias = None \<and> spec_exponential_boost bias = None)))
      then SKIP
      else if spec_linear_boost bias \<noteq> None \<and> spec_exponential_boost bias \<noteq> None
      then SKIP
      else case g_regex_new P (the (spec_regex bias)) of
        None \<Rightarrow> SKIP
      | Some rx \<Rightarrow>
          let boost = (case spec_boost_appids bias of
                         None \<Rightarrow> None
                       | Some appids \<Rightarrow> if 0 < length appids then Some (set appids) else None);
              data = bias_data_new \<lparr> regex := Some rx, convert_to := spec_convert_to bias,
                                     boost := boost \<rparr>;
              data = (case spec_linear_boost bias of
                        None \<Rightarrow> data
                      | Some (slope, icpt) \<Rightarrow>
                          data \<lparr> boost_kind := LINEAR, slope_or_factor := slope,
                                 y_intercept := icpt \<rparr>);
              data = (case spec_exponential_boost bias of
                        None \<Rightarrow> data
                      | Some (factor, icpt) \<Rightarrow>
                          data \<lparr> boost_kind := EXPONENTIAL, slope_or_factor := factor,
                                 y_intercept := icpt \<rparr>)
          in data)"

definition g_ptr_array_remove_range :: "'a list \<Rightarrow> nat \<Rightarrow> nat \<Rightarrow> 'a list" where
  "g_ptr_array_remove_range xs position removed = take position xs @ drop (position + removed) xs"

definition g_ptr_array_insert :: "'a list \<Rightarrow> nat \<Rightarrow> 'a \<Rightarrow> 'a list" where
  "g_ptr_array_insert xs i x = take i xs @ x # drop i xs"

text \<open>
  \<open>biases_changed (self, position, removed, added, model)\<close> on the mirror. The signal
  guarantees \<open>position + added \<le> length model\<close> and that the removed range lies in
  the mirror.
\<close>

fun biases_changed_loop ::
  "'rx platform \<Rightarrow> search_bias list \<Rightarrow> nat \<Rightarrow> nat list \<Rightarrow> 'rx bias_data list \<Rightarrow> 'rx bias_data list" where
  "biases_changed_loop P model position [] mirror = mirror"
| "biases_changed_loop P model position (i # is) mirror =
     biases_changed_loop P model position is
       (g_ptr_array_insert mirror (position + i) (bias_data_of P (model ! (position + i))))"

definition biases_changed ::
  "'rx platform \<Rightarrow> 'rx bias_data list \<Rightarrow> nat \<Rightarrow> nat \<Rightarrow> nat \<Rightarrow> search_bias list \<Rightarrow> 'rx bias_data list" where
  "biases_changed P biases_mirror position removed added model =
     biases_changed_loop P model position [0..<added]
       (if 0 < removed then g_ptr_array_remove_range biases_mirror position removed
        else biases_mirror)"

text \<open>The engine: the candidate collection, the bias source and the table built from it.\<close>

record 'rx search_engine =
  model :: "entry_group list option"
  biases :: "search_bias list option"
  biases_mirror :: "'rx bias_data list"

definition bz_search_engine_set_biases ::
  "'rx platform \<Rightarrow> 'rx search_engine \<Rightarrow> search_bias list option \<Rightarrow> 'rx search_engine" where
  "bz_search_engine_set_biases P self new_biases =
     (case new_biases of
        None \<Rightarrow> self \<lparr> biases := None, biases_mirror := [] \<rparr>
      | Some bs \<Rightarrow>
          self \<lparr> biases := Some bs,
                 biases_mirror := biases_changed P [] 0 0 (length bs) bs \<rparr>)"

definition bz_search_engine_set_model ::
  "'rx search_engine \<Rightarrow> entry_group list option \<Rightarrow> 'rx search_engine" where
  "bz_search_engine_set_model self new_model = self \<lparr> model := new_model \<rparr>"

subsection \<open>The shard worker\<close>

datatype fault =
  Precondition_Failed  \<comment> \<open>\<open>dex_return_error_if_fail\<close>: the future is an error\<close>
| Null_Dereference     \<comment> \<open>\<open>g_str_hash (NULL)\<close> inside \<open>g_hash_table_contains\<close>\<close>
| Out_Of_Bounds        \<comment> \<open>\<open>g_ptr_array_index\<close> past the end of the snapshot\<close>

record Score =
  idx :: nat
  val :: dbl

definition EVALUATE_STRING :: "'rx platform \<Rightarrow> utf8 \<Rightarrow> utf8 option \<Rightarrow> int \<Rightarrow> dbl" where
  "EVALUATE_STRING P query_utf8 s accept_min_size =
     (case s of None \<Rightarrow> Fin 0 | Some s' \<Rightarrow> test_strings P query_utf8 s' accept_min_size)"

definition exact_match :: "'rx platform \<Rightarrow> utf8 \<Rightarrow> entry_group \<Rightarrow> bool" where
  \<comment> \<open>The condition of the \<open>if\<close>: \<open>g_strcmp0\<close> on the identifier, \<open>strcasecmp\<close> on the title.\<close>
  "exact_match P query_utf8 grp =
     ((group_id grp \<noteq> None \<and> query_utf8 = the (group_id grp)) \<or>
      (group_title grp \<noteq> None \<and> strcasecmp_eq P query_utf8 (the (group_title grp))))"

definition weighted_score :: "'rx platform \<Rightarrow> utf8 \<Rightarrow> entry_group \<Rightarrow> dbl" where
  \<comment> \<open>The \<open>else\<close> branch: four \<open>score += ...\<close> on a score that starts at 0.0.\<close>
  "weighted_score P query_utf8 grp =
     (let score = Fin 0;
          score = dadd score (dmul (EVALUATE_STRING P query_utf8 (group_title grp) 2) (Fin 2));
          score = dadd score (dmul (EVALUATE_STRING P query_utf8 (group_developer grp) 2) (Fin 1));
          score = dadd score (dmul (EVALUATE_STRING P query_utf8 (group_description grp) 3) (Fin 1));
          score = dadd score (dmul (EVALUATE_STRING P query_utf8 (group_search_tokens grp) (- 1)) (Fin (3 / 2)))
      in score)"

definition pre_bias_score :: "'rx platform \<Rightarrow> utf8 \<Rightarrow> entry_group \<Rightarrow> dbl" where
  "pre_bias_score P query_utf8 grp =
     (if exact_match P query_utf8 grp then G_MAXINT else weighted_score P query_utf8 grp)"

definition boosted :: "'rx platform \<Rightarrow> 'rx bias_data \<Rightarrow> dbl \<Rightarrow> dbl" where
  \<comment> \<open>The \<open>switch\<close> on \<open>boost_kind\<close>.\<close>
  "boosted P bias score =
     (case boost_kind bias of
        LINEAR \<Rightarrow> dadd (dmul (slope_or_factor bias) score) (y_intercept bias)
      | EXPONENTIAL \<Rightarrow> dadd (pow P (slope_or_factor bias) score) (y_intercept bias))"

text \<open>The loop over the active biases for one candidate with identifier \<open>id\<close>.\<close>

fun active_biases_loop ::
  "'rx platform \<Rightarrow> 'rx bias_data list \<Rightarrow> utf8 option \<Rightarrow> dbl \<Rightarrow> fault + dbl" where
  "active_biases_loop P [] ident score = Inr score"
| "active_biases_loop P (bias # rest) ident score =
     (case boost bias of
        None \<Rightarrow> active_biases_loop P rest ident score
      | Some table \<Rightarrow>
          (case ident of
             None \<Rightarrow> Inl Null_Dereference
           | Some i \<Rightarrow>
               if i \<notin> table then active_biases_loop P rest ident score
               else active_biases_loop P rest ident (boosted P bias score)))"

text \<open>
  One pass of the loop of \<open>query_sub_task_fiber\<close>: \<open>None\<close> for a candidate that is
  not searchable (\<open>continue\<close>), its final score otherwise.
\<close>

definition group_score ::
  "'rx platform \<Rightarrow> utf8 \<Rightarrow> 'rx bias_data list \<Rightarrow> entry_group \<Rightarrow> fault + dbl option" where
  "group_score P query_utf8 active_biases grp =
     (if \<not> group_searchable grp then Inr None
      else case active_biases_loop P active_biases (group_id grp)
                  (pre_bias_score P query_utf8 grp) of
             Inl f \<Rightarrow> Inl f
           | Inr score \<Rightarrow> Inr (Some score))"

fun sub_task_loop ::
  "'rx platform \<Rightarrow> utf8 \<Rightarrow> entry_group list \<Rightarrow> dbl \<Rightarrow> nat \<Rightarrow> 'rx bias_data list \<Rightarrow>
   nat list \<Rightarrow> Score list \<Rightarrow> fault + Score list" where
  "sub_task_loop P query_utf8 shallow_mirror threshold work_offset active_biases [] scores_out =
     Inr scores_out"
| "sub_task_loop P query_utf8 shallow_mirror threshold work_offset active_biases (i # is) scores_out =
     (if length shallow_mirror \<le> work_offset + i then Inl Out_Of_Bounds
      else case group_score P query_utf8 active_biases (shallow_mirror ! (work_offset + i)) of
             Inl f \<Rightarrow> Inl f
           | Inr None \<Rightarrow>
               sub_task_loop P query_utf8 shallow_mirror threshold work_offset active_biases
                 is scores_out
           | Inr (Some score) \<Rightarrow>
               sub_task_loop P query_utf8 shallow_mirror threshold work_offset active_biases is
                 (if dgt score threshold
                  then scores_out @ [\<lparr> idx = work_offset + i, val = score \<rparr>]
                  else scores_out))"

definition query_sub_task_fiber ::
  "'rx platform \<Rightarrow> utf8 \<Rightarrow> entry_group list \<Rightarrow> dbl \<Rightarrow> nat \<Rightarrow> nat \<Rightarrow> 'rx bias_data list \<Rightarrow>
   fault + Score list" where
  "query_sub_task_fiber P query_utf8 shallow_mirror threshold work_offset work_length active_biases =
     sub_task_loop P query_utf8 shallow_mirror threshold work_offset active_biases
       [0..<work_length] []"

subsection \<open>Sorting the scores\<close>

definition cmp_scores :: "Score \<Rightarrow> Score \<Rightarrow> int" where
  "cmp_scores a b = (if dlt (dsub (val b) (val a)) (Fin 0) then - 1 else 1)"

text \<open>
  \<open>g_array_sort\<close> is GLib's: a merge sort that halves the array, sorts both halves
  and merges them, taking from the first half when the callback returns a value
  \<open>\<le> 0\<close>.
\<close>

fun merge_with :: "('a \<Rightarrow> 'a \<Rightarrow> int) \<Rightarrow> 'a list \<Rightarrow> 'a list \<Rightarrow> 'a list" where
  "merge_with cmp [] ys = ys"
| "merge_with cmp xs [] = xs"
| "merge_with cmp (x # xs) (y # ys) =
     (if cmp x y \<le> 0 then x # merge_with cmp xs (y # ys)
      else y # merge_with cmp (x # xs) ys)"

function g_array_sort :: "('a \<Rightarrow> 'a \<Rightarrow> int) \<Rightarrow> 'a list \<Rightarrow> 'a list" where
  "g_array_sort cmp xs =
     (if length xs \<le> 1 then xs
      else merge_with cmp (g_array_sort cmp (take (length xs div 2) xs))
                          (g_array_sort cmp (drop (length xs div 2) xs)))"
  by pat_completeness auto
termination
  by (relation "measure (\<lambda>(cmp, xs). length xs)") auto

declare g_array_sort.simps [simp del]

subsection \<open>The coordinator\<close>

fun g_strjoinv :: "utf8 \<Rightarrow> utf8 list \<Rightarrow> utf8" where
  "g_strjoinv separator [] = []"
| "g_strjoinv separator [t] = t"
| "g_strjoinv separator (t # ts) = t @ separator @ g_strjoinv separator ts"

text \<open>
  The loop over the bias table in \<open>query_task_fiber\<close>: the working query and the
  active biases. \<open>g_regex_match\<close> on a NULL regex fails its precondition and returns
  FALSE.
\<close>

fun biases_loop ::
  "'rx platform \<Rightarrow> 'rx bias_data list \<Rightarrow> utf8 \<Rightarrow> 'rx bias_data list \<Rightarrow> utf8 \<times> 'rx bias_data list" where
  "biases_loop P [] query_utf8 active_biases = (query_utf8, active_biases)"
| "biases_loop P (bias # rest) query_utf8 active_biases =
     (if invalid bias then biases_loop P rest query_utf8 active_biases
      else case regex bias of
        None \<Rightarrow> biases_loop P rest query_utf8 active_biases
      | Some rx \<Rightarrow>
          if \<not> g_regex_match P rx query_utf8 then biases_loop P rest query_utf8 active_biases
          else
            let query_utf8' =
                  (case convert_to bias of
                     None \<Rightarrow> query_utf8
                   | Some replacement \<Rightarrow>
                       (case g_regex_replace P rx query_utf8 replacement of
                          None \<Rightarrow> query_utf8
                        | Some tmp \<Rightarrow> tmp))
            in biases_loop P rest query_utf8' (active_biases @ [bias]))"

definition n_sub_tasks_of :: "'rx platform \<Rightarrow> nat \<Rightarrow> nat" where
  \<comment> \<open>\<open>MAX (1, MIN (shallow_mirror->len / 512, g_get_num_processors ()))\<close>\<close>
  "n_sub_tasks_of P len = max 1 (min (len div 512) (g_get_num_processors P))"

definition work_offset_of :: "'rx platform \<Rightarrow> nat \<Rightarrow> nat \<Rightarrow> nat" where
  "work_offset_of P len i = i * (len div n_sub_tasks_of P len)"

definition work_length_of :: "'rx platform \<Rightarrow> nat \<Rightarrow> nat \<Rightarrow> nat" where
  "work_length_of P len i =
     (let n_sub_tasks = n_sub_tasks_of P len;
          scores_per_task = len div n_sub_tasks
      in if n_sub_tasks - 1 \<le> i then scores_per_task + len mod n_sub_tasks
         else scores_per_task)"

text \<open>Awaiting the futures of all sub tasks: their values, or the first failure.\<close>

fun await_all :: "(fault + 'a) list \<Rightarrow> fault + 'a list" where
  "await_all [] = Inr []"
| "await_all (Inl f # rest) = Inl f"
| "await_all (Inr x # rest) = (case await_all rest of Inl f \<Rightarrow> Inl f | Inr xs \<Rightarrow> Inr (x # xs))"

record search_result =
  result_group :: entry_group
  original_index :: nat
  result_score :: "dbl option"

record finished_search_query =
  interpreted_query :: utf8
  results :: "search_result list"
  n_results :: nat

definition query_task_fiber ::
  "'rx platform \<Rightarrow> utf8 list \<Rightarrow> entry_group list \<Rightarrow> 'rx bias_data list \<Rightarrow>
   fault + finished_search_query" where
  "query_task_fiber P terms shallow_mirror table =
     (let query_utf8 = g_strjoinv [32] terms;
          n_sub_tasks = n_sub_tasks_of P (length shallow_mirror);
          (query_utf8, active_biases) = biases_loop P table query_utf8 [];
          sub_futures =
            map (\<lambda>i. query_sub_task_fiber P query_utf8 shallow_mirror (Fin 1)
                        (work_offset_of P (length shallow_mirror) i)
                        (work_length_of P (length shallow_mirror) i) active_biases)
              [0..<n_sub_tasks]
      in case await_all sub_futures of
           Inl f \<Rightarrow> Inl f
         | Inr scores_out \<Rightarrow>
             let scores = concat scores_out;
                 scores = (if 0 < length scores then g_array_sort cmp_scores scores else scores);
                 results = map (\<lambda>score. \<lparr> result_group = shallow_mirror ! idx score,
                                            original_index = idx score,
                                            result_score = Some (val score) \<rparr>) scores
             in Inr \<lparr> interpreted_query = query_utf8, results = results,
                      n_results = length results \<rparr>)"

subsection \<open>The public operation\<close>

definition bz_search_engine_query ::
  "'rx platform \<Rightarrow> 'rx search_engine \<Rightarrow> utf8 list \<Rightarrow> fault + finished_search_query" where
  "bz_search_engine_query P self terms =
     (if terms = [] then Inl Precondition_Failed
      else
        let n_groups = (case model self of None \<Rightarrow> 0 | Some m \<Rightarrow> length m)
        in if model self = None \<or> n_groups = 0 \<or> hd terms = []
           then Inr \<lparr> interpreted_query = [],
                      results = map (\<lambda>i. \<lparr> result_group = the (model self) ! i,
                                            original_index = i, result_score = None \<rparr>)
                                  [0..<n_groups],
                      n_results = n_groups \<rparr>
           else query_task_fiber P terms (the (model self)) (biases_mirror self))"

subsection \<open>A platform for the examples\<close>

text \<open>
  The examples below run on ASCII text, on a platform that is GLib's there: the space
  separators are those of Unicode, case folding is that of the ASCII letters, and the
  regex engine knows the patterns without metacharacters, for which a compiled regex is
  the literal text to find. \<open>g_regex_match\<close> with \<open>G_REGEX_MATCH_DEFAULT\<close> is not
  anchored: it looks for the pattern anywhere in the subject. \<open>g_regex_replace\<close>
  replaces every occurrence, from left to right. \<open>pow\<close> is given for a positive finite
  base and a finite exponent only.
\<close>

definition ascii :: "string \<Rightarrow> utf8" where
  "ascii s = map of_char s"

definition ascii_tolower :: "gunichar \<Rightarrow> gunichar" where
  "ascii_tolower c = (if 65 \<le> c \<and> c \<le> 90 then c + 32 else c)"

definition unicode_space_separator :: "gunichar \<Rightarrow> bool" where
  \<comment> \<open>The general category Zs.\<close>
  "unicode_space_separator c =
     (c = 32 \<or> c = 160 \<or> c = 5760 \<or> (8192 \<le> c \<and> c \<le> 8202) \<or> c = 8239 \<or> c = 8287 \<or>
      c = 12288)"

fun starts_with :: "utf8 \<Rightarrow> utf8 \<Rightarrow> bool" where
  "starts_with s [] = True"
| "starts_with [] (p # ps) = False"
| "starts_with (c # cs) (p # ps) = (c = p \<and> starts_with cs ps)"

fun literal_match :: "utf8 \<Rightarrow> utf8 \<Rightarrow> bool" where
  "literal_match pattern [] = (pattern = [])"
| "literal_match pattern (c # cs) = (starts_with (c # cs) pattern \<or> literal_match pattern cs)"

fun literal_replace_loop :: "utf8 \<Rightarrow> utf8 \<Rightarrow> nat \<Rightarrow> utf8 \<Rightarrow> utf8" where
  "literal_replace_loop pattern replacement skip [] = []"
| "literal_replace_loop pattern replacement (Suc skip) (c # cs) =
     literal_replace_loop pattern replacement skip cs"
| "literal_replace_loop pattern replacement 0 (c # cs) =
     (if starts_with (c # cs) pattern
      then replacement @ literal_replace_loop pattern replacement (length pattern - 1) cs
      else c # literal_replace_loop pattern replacement 0 cs)"

definition literal_replace :: "utf8 \<Rightarrow> utf8 \<Rightarrow> utf8 \<Rightarrow> utf8" where
  "literal_replace pattern subject replacement =
     (if pattern = [] then replacement @ concat (map (\<lambda>c. c # replacement) subject)
      else literal_replace_loop pattern replacement 0 subject)"

definition example_pow :: "dbl \<Rightarrow> dbl \<Rightarrow> dbl" where
  "example_pow x y =
     (case (x, y) of (Fin a, Fin b) \<Rightarrow> if 0 < a then Fin (a powr b) else NaN | _ \<Rightarrow> NaN)"

definition example_platform :: "utf8 platform" where
  "example_platform =
     \<lparr> is_space_separator = unicode_space_separator,
       g_unichar_tolower = ascii_tolower,
       strcasecmp_eq = (\<lambda>a b. map ascii_tolower a = map ascii_tolower b),
       g_regex_new = (\<lambda>pattern. Some pattern),
       g_regex_match = (\<lambda>pattern subject. literal_match pattern subject),
       g_regex_replace = (\<lambda>pattern subject replacement.
                            Some (literal_replace pattern subject replacement)),
       pow = example_pow,
       g_get_num_processors = 4 \<rparr>"

lemmas example_simps =
  example_platform_def ascii_def ascii_tolower_def unicode_space_separator_def
  literal_replace_def example_pow_def
  test_strings_def utf8_tokens.simps utf8_skip_to_next_of_class_def g_utf8_get_char_def
  gsize_sub_def gsize_mul_def double_of_gsize_div_def

section \<open>Sharding\<close>

lemma n_sub_tasks_of_pos: "0 < n_sub_tasks_of P len"
  by (simp add: n_sub_tasks_of_def)

lemma concat_equal_shards:
  "concat (map (\<lambda>i. [i * q ..< i * q + q]) [0..<m]) = [0..<m * q]"
proof (induction m)
  case 0
  show ?case by simp
next
  case (Suc m)
  have "[0..<m * q] @ [m * q..<m * q + q] = [0..<m * q + q]"
    by (metis le_add1 upt_add_eq_append zero_le)
  with Suc show ?case by (simp add: add.commute)
qed

lemma shard_ranges_partition:
  "concat (map (\<lambda>i. [work_offset_of P len i ..< work_offset_of P len i + work_length_of P len i])
       [0..<n_sub_tasks_of P len]) = [0..<len]"
proof -
  define k where "k = n_sub_tasks_of P len"
  define q where "q = len div k"
  have kpos: "0 < k" by (simp add: k_def n_sub_tasks_of_pos)
  then have split: "[0..<k] = [0..<k - 1] @ [k - 1]"
    by (metis Suc_diff_1 upt_Suc_append zero_le)
  have early: "\<And>i. i < k - 1 \<Longrightarrow>
      [work_offset_of P len i ..< work_offset_of P len i + work_length_of P len i] = [i * q ..< i * q + q]"
    by (simp add: work_offset_of_def work_length_of_def k_def q_def Let_def)
  have last: "[work_offset_of P len (k - 1) ..< work_offset_of P len (k - 1) + work_length_of P len (k - 1)]
      = [(k - 1) * q ..< len]"
  proof -
    have "(k - 1) * q + (q + len mod k) = k * q + len mod k"
      using kpos by (cases k) (simp_all add: algebra_simps)
    also have "\<dots> = len" by (simp add: q_def)
    finally show ?thesis
      by (simp add: work_offset_of_def work_length_of_def Let_def flip: k_def q_def)
  qed
  have "concat (map (\<lambda>i. [work_offset_of P len i ..< work_offset_of P len i + work_length_of P len i]) [0..<k])
      = concat (map (\<lambda>i. [i * q ..< i * q + q]) [0..<k - 1]) @ [(k - 1) * q ..< len]"
  proof -
    have "map (\<lambda>i. [work_offset_of P len i ..< work_offset_of P len i + work_length_of P len i]) [0..<k - 1]
        = map (\<lambda>i. [i * q ..< i * q + q]) [0..<k - 1]"
      by (rule map_cong) (simp_all add: early)
    then show ?thesis
      by (subst split) (simp only: map_append concat_append last list.map concat.simps append_Nil2)
  qed
  also have "\<dots> = [0..<(k - 1) * q] @ [(k - 1) * q ..< len]"
    by (simp add: concat_equal_shards)
  also have "\<dots> = [0..<len]"
  proof -
    have "(k - 1) * q \<le> k * q" by (rule mult_le_mono1) simp
    also have "k * q \<le> len" by (simp add: q_def)
    finally have "(k - 1) * q \<le> len" .
    then show ?thesis by (metis le0 le_Suc_ex upt_add_eq_append)
  qed
  finally show ?thesis by (simp add: k_def)
qed

lemma shard_of_index_unique:
  assumes "i1 < i2" and "i2 < n_sub_tasks_of P len"
    and "j < work_offset_of P len i1 + work_length_of P len i1"
  shows "j < work_offset_of P len i2"
proof -
  define q where "q = len div n_sub_tasks_of P len"
  from assms have "i1 < n_sub_tasks_of P len - 1" by simp
  with assms(3) have "j < i1 * q + q"
    by (simp add: work_offset_of_def work_length_of_def Let_def q_def)
  moreover have "Suc i1 * q \<le> i2 * q"
    using assms(1) by (intro mult_le_mono1) simp
  ultimately show ?thesis by (simp add: work_offset_of_def q_def)
qed

section \<open>The shard worker and the coordinator, in closed form\<close>

text \<open>
  The final score of a candidate that has an identifier: the biases whose boost table
  holds the identifier, applied from left to right to the score before the biases.
\<close>

definition in_boost :: "utf8 \<Rightarrow> 'rx bias_data \<Rightarrow> bool" where
  "in_boost i bias = (case boost bias of None \<Rightarrow> False | Some table \<Rightarrow> i \<in> table)"

lemma active_biases_loop_Some:
  "active_biases_loop P bs (Some i) score =
     Inr (foldl (\<lambda>s b. boosted P b s) score (filter (in_boost i) bs))"
  by (induction bs arbitrary: score) (auto simp: in_boost_def split: option.splits)

lemma active_biases_loop_no_boost:
  "\<forall>b\<in>set bs. boost b = None \<Longrightarrow> active_biases_loop P bs ident score = Inr score"
  by (induction bs arbitrary: score) auto

definition lookup_safe :: "'rx bias_data list \<Rightarrow> entry_group \<Rightarrow> bool" where
  \<comment> \<open>No boost table is searched for a NULL identifier.\<close>
  "lookup_safe active_biases grp =
     (group_searchable grp \<longrightarrow>
      group_id grp \<noteq> None \<or> (\<forall>b\<in>set active_biases. boost b = None))"

definition final_score :: "'rx platform \<Rightarrow> utf8 \<Rightarrow> 'rx bias_data list \<Rightarrow> entry_group \<Rightarrow> dbl" where
  "final_score P query_utf8 active_biases grp =
     foldl (\<lambda>s b. boosted P b s) (pre_bias_score P query_utf8 grp)
       (filter (in_boost (the (group_id grp))) active_biases)"

lemma filter_in_boost_no_boost:
  "\<forall>b\<in>set act. boost b = None \<Longrightarrow> filter (in_boost i) act = []"
  by (induction act) (simp_all add: in_boost_def)

lemma group_score_lookup_safe:
  "lookup_safe act grp \<Longrightarrow> group_score P q act grp =
     Inr (if group_searchable grp then Some (final_score P q act grp) else None)"
  by (auto simp: lookup_safe_def group_score_def final_score_def active_biases_loop_Some
      active_biases_loop_no_boost filter_in_boost_no_boost)

definition emitted ::
  "'rx platform \<Rightarrow> utf8 \<Rightarrow> 'rx bias_data list \<Rightarrow> entry_group list \<Rightarrow> dbl \<Rightarrow> nat \<Rightarrow> Score list" where
  "emitted P q act mirror threshold k =
     (if group_searchable (mirror ! k) \<and> dgt (final_score P q act (mirror ! k)) threshold
      then [\<lparr> idx = k, val = final_score P q act (mirror ! k) \<rparr>] else [])"

lemma sub_task_loop_eq:
  assumes "\<forall>i\<in>set is. offset + i < length mirror \<and> lookup_safe act (mirror ! (offset + i))"
  shows "sub_task_loop P q mirror threshold offset act is out =
     Inr (out @ concat (map (\<lambda>i. emitted P q act mirror threshold (offset + i)) is))"
  using assms
proof (induction "is" arbitrary: out)
  case Nil
  show ?case by simp
next
  case (Cons i "is")
  then have i: "offset + i < length mirror" "lookup_safe act (mirror ! (offset + i))" by simp_all
  from Cons have rest: "\<And>out. sub_task_loop P q mirror threshold offset act is out =
     Inr (out @ concat (map (\<lambda>i. emitted P q act mirror threshold (offset + i)) is))"
    by simp
  show ?case using i
    by (simp add: rest group_score_lookup_safe emitted_def)
qed

lemma upt_shift: "[k..<k + n] = map (\<lambda>i. k + i) [0..<n]"
  by (induction n) simp_all

lemma query_sub_task_fiber_eq:
  assumes "offset + len \<le> length mirror" and "\<forall>g\<in>set mirror. lookup_safe act g"
  shows "query_sub_task_fiber P q mirror threshold offset len act =
     Inr (concat (map (emitted P q act mirror threshold) [offset..<offset + len]))"
proof -
  have "\<forall>i\<in>set [0..<len]. offset + i < length mirror \<and> lookup_safe act (mirror ! (offset + i))"
    using assms by auto
  from sub_task_loop_eq [OF this, where P = P and q = q and threshold = threshold and out = "[]"]
  have "query_sub_task_fiber P q mirror threshold offset len act =
     Inr (concat (map (\<lambda>i. emitted P q act mirror threshold (offset + i)) [0..<len]))"
    by (simp add: query_sub_task_fiber_def)
  moreover have "map (\<lambda>i. emitted P q act mirror threshold (offset + i)) [0..<len] =
     map (emitted P q act mirror threshold) [offset..<offset + len]"
    by (simp add: upt_shift)
  ultimately show ?thesis by simp
qed

lemma await_all_map_Inr: "await_all (map (\<lambda>x. Inr (f x)) xs) = Inr (map f xs)"
  by (induction xs) auto

lemma concat_map_concat_map:
  "concat (map (\<lambda>x. concat (map f (g x))) xs) = concat (map f (concat (map g xs)))"
  by (induction xs) auto

subsection \<open>The merge sort with \<open>cmp_scores\<close>\<close>

lemma dlt_dsub_zero: "a \<noteq> NaN \<Longrightarrow> b \<noteq> NaN \<Longrightarrow> dlt (dsub b a) (Fin 0) = dgt a b"
  by (cases a; cases b) (simp_all add: dlt_def dsub_def)

lemma dgt_asym: "dgt a b \<Longrightarrow> \<not> dgt b a"
  by (cases a; cases b) simp_all

lemma not_dgt_trans: "b \<noteq> NaN \<Longrightarrow> \<not> dgt b a \<Longrightarrow> \<not> dgt c b \<Longrightarrow> \<not> dgt c a"
  by (cases a; cases b; cases c) simp_all

lemma dgt_not_NaN: "dgt a b \<Longrightarrow> a \<noteq> NaN"
  by (cases a) simp_all

definition ranked_before :: "Score \<Rightarrow> Score \<Rightarrow> bool" where
  "ranked_before a b = (\<not> dgt (val b) (val a))"

lemma cmp_scores_le_zero:
  "val a \<noteq> NaN \<Longrightarrow> val b \<noteq> NaN \<Longrightarrow> (cmp_scores a b \<le> 0) = dgt (val a) (val b)"
  by (simp add: cmp_scores_def dlt_dsub_zero)

lemma mset_merge_with: "mset (merge_with cmp xs ys) = mset xs + mset ys"
  by (induction cmp xs ys rule: merge_with.induct) auto

lemma set_merge_with: "set (merge_with cmp xs ys) = set xs \<union> set ys"
  by (induction cmp xs ys rule: merge_with.induct) auto

lemma mset_g_array_sort: "mset (g_array_sort cmp xs) = mset xs"
proof (induction cmp xs rule: g_array_sort.induct)
  case (1 cmp xs)
  show ?case
  proof (cases "length xs \<le> 1")
    case True
    then show ?thesis by (simp add: g_array_sort.simps)
  next
    case False
    with 1 have "mset (g_array_sort cmp xs) =
        mset (take (length xs div 2) xs) + mset (drop (length xs div 2) xs)"
      by (subst g_array_sort.simps) (simp add: mset_merge_with)
    also have "\<dots> = mset (take (length xs div 2) xs @ drop (length xs div 2) xs)"
      by (simp only: mset_append)
    finally show ?thesis by simp
  qed
qed

lemma sorted_merge_with_cmp_scores:
  assumes "sorted_wrt ranked_before xs" and "sorted_wrt ranked_before ys"
    and "\<forall>x\<in>set xs \<union> set ys. val x \<noteq> NaN"
  shows "sorted_wrt ranked_before (merge_with cmp_scores xs ys)"
  using assms
proof (induction cmp_scores xs ys rule: merge_with.induct)
  case (1 ys)
  then show ?case by simp
next
  case (2 v va)
  then show ?case by simp
next
  case (3 x xs y ys)
  have nn: "val x \<noteq> NaN" "val y \<noteq> NaN" using 3 by simp_all
  show ?case
  proof (cases "cmp_scores x y \<le> 0")
    case True
    then have xy: "ranked_before x y"
      using nn by (simp add: cmp_scores_le_zero ranked_before_def dgt_asym)
    have "\<forall>z\<in>set ys. ranked_before x z"
    proof
      fix z assume "z \<in> set ys"
      with 3 have "ranked_before y z" by simp
      with xy nn show "ranked_before x z"
        unfolding ranked_before_def by (metis not_dgt_trans)
    qed
    moreover have "sorted_wrt ranked_before (merge_with cmp_scores xs (y # ys))"
      using 3 True by simp
    ultimately show ?thesis using True 3 xy by (auto simp: set_merge_with)
  next
    case False
    then have yx: "ranked_before y x"
      using nn by (simp add: cmp_scores_le_zero ranked_before_def)
    have "\<forall>z\<in>set xs. ranked_before y z"
    proof
      fix z assume "z \<in> set xs"
      with 3 have "ranked_before x z" by simp
      with yx nn show "ranked_before y z"
        unfolding ranked_before_def by (metis not_dgt_trans)
    qed
    moreover have "sorted_wrt ranked_before (merge_with cmp_scores (x # xs) ys)"
      using 3 False by simp
    ultimately show ?thesis using False 3 yx by (auto simp: set_merge_with)
  qed
qed

lemma sorted_g_array_sort_cmp_scores:
  "\<forall>x\<in>set xs. val x \<noteq> NaN \<Longrightarrow> sorted_wrt ranked_before (g_array_sort cmp_scores xs)"
proof (induction cmp_scores xs rule: g_array_sort.induct)
  case (1 xs)
  show ?case
  proof (cases "length xs \<le> 1")
    case True
    then show ?thesis
      by (cases xs) (simp_all add: g_array_sort.simps)
  next
    case False
    let ?l = "take (length xs div 2) xs" and ?r = "drop (length xs div 2) xs"
    have sub: "set ?l \<subseteq> set xs" "set ?r \<subseteq> set xs"
      by (auto dest: in_set_takeD in_set_dropD)
    with 1 False have "sorted_wrt ranked_before (g_array_sort cmp_scores ?l)"
      "sorted_wrt ranked_before (g_array_sort cmp_scores ?r)"
      by auto
    moreover have "\<forall>x\<in>set (g_array_sort cmp_scores ?l) \<union> set (g_array_sort cmp_scores ?r). val x \<noteq> NaN"
      using sub 1(3) by (auto simp: mset_g_array_sort [THEN mset_eq_setD])
    ultimately have "sorted_wrt ranked_before
        (merge_with cmp_scores (g_array_sort cmp_scores ?l) (g_array_sort cmp_scores ?r))"
      by (rule sorted_merge_with_cmp_scores)
    with False show ?thesis by (subst g_array_sort.simps) simp
  qed
qed

subsection \<open>The result of \<open>query_task_fiber\<close>\<close>

lemma shard_in_range:
  assumes "i < n_sub_tasks_of P n"
  shows "work_offset_of P n i + work_length_of P n i \<le> n"
proof -
  define k where "k = n_sub_tasks_of P n"
  define q where "q = n div k"
  have kq: "k * q + n mod k = n" by (simp add: q_def)
  show ?thesis
  proof (cases "i < k - 1")
    case True
    then have "Suc i * q \<le> k * q" by (intro mult_le_mono1) simp
    with kq have "i * q + q \<le> n" by simp
    with True show ?thesis
      by (simp add: work_offset_of_def work_length_of_def Let_def flip: k_def q_def)
  next
    case False
    with assms have "i = k - 1" "0 < k" by (simp_all add: k_def)
    then have "i * q + q = k * q" by (cases k) simp_all
    with kq have "i * q + (q + n mod k) = n" by simp
    with False show ?thesis
      by (simp add: work_offset_of_def work_length_of_def Let_def flip: k_def q_def)
  qed
qed

definition to_result :: "entry_group list \<Rightarrow> Score \<Rightarrow> search_result" where
  "to_result mirror score =
     \<lparr> result_group = mirror ! idx score, original_index = idx score,
       result_score = Some (val score) \<rparr>"

definition all_emitted ::
  "'rx platform \<Rightarrow> utf8 \<Rightarrow> 'rx bias_data list \<Rightarrow> entry_group list \<Rightarrow> Score list" where
  "all_emitted P q act mirror = concat (map (emitted P q act mirror (Fin 1)) [0..<length mirror])"

lemma query_task_fiber_eq:
  assumes ids: "\<forall>g\<in>set mirror. lookup_safe act g"
    and bl: "biases_loop P table (g_strjoinv [32] terms) [] = (q, act)"
  shows "query_task_fiber P terms mirror table =
     Inr \<lparr> interpreted_query = q,
           results = map (to_result mirror) (g_array_sort cmp_scores (all_emitted P q act mirror)),
           n_results = length (all_emitted P q act mirror) \<rparr>"
proof -
  let ?n = "length mirror"
  let ?k = "n_sub_tasks_of P ?n"
  let ?range = "\<lambda>i. [work_offset_of P ?n i ..< work_offset_of P ?n i + work_length_of P ?n i]"
  have futures: "map (\<lambda>i. query_sub_task_fiber P q mirror (Fin 1) (work_offset_of P ?n i)
        (work_length_of P ?n i) act) [0..<?k]
      = map (\<lambda>i. Inr (concat (map (emitted P q act mirror (Fin 1)) (?range i)))) [0..<?k]"
    by (rule map_cong) (simp_all add: query_sub_task_fiber_eq shard_in_range ids)
  have "concat (map (\<lambda>i. concat (map (emitted P q act mirror (Fin 1)) (?range i))) [0..<?k])
      = concat (map (emitted P q act mirror (Fin 1)) (concat (map ?range [0..<?k])))"
    by (rule concat_map_concat_map)
  also have "\<dots> = all_emitted P q act mirror"
    by (simp only: shard_ranges_partition all_emitted_def)
  finally have scores: "concat (map (\<lambda>i. concat (map (emitted P q act mirror (Fin 1)) (?range i))) [0..<?k])
      = all_emitted P q act mirror" .
  have sort_nil: "g_array_sort cmp_scores [] = ([] :: Score list)"
    by (simp add: g_array_sort.simps)
  have len: "length (g_array_sort cmp_scores (all_emitted P q act mirror)) = length (all_emitted P q act mirror)"
    by (metis mset_g_array_sort size_mset)
  show ?thesis
    unfolding query_task_fiber_def Let_def bl prod.case futures await_all_map_Inr sum.case scores
    by (cases "all_emitted P q act mirror = []") (simp_all add: sort_nil len to_result_def [abs_def])
qed

lemma concat_map_if_singleton:
  "concat (map (\<lambda>i. if C i then [f i] else []) xs) = map f (filter C xs)"
  by (induction xs) auto

lemma all_emitted_eq:
  "all_emitted P q act mirror =
     map (\<lambda>i. \<lparr> idx = i, val = final_score P q act (mirror ! i) \<rparr>)
       (filter (\<lambda>i. group_searchable (mirror ! i) \<and> dgt (final_score P q act (mirror ! i)) (Fin 1))
          [0..<length mirror])"
  unfolding all_emitted_def emitted_def by (rule concat_map_if_singleton)

lemma map_idx_all_emitted:
  "map idx (all_emitted P q act mirror) =
     filter (\<lambda>i. group_searchable (mirror ! i) \<and> dgt (final_score P q act (mirror ! i)) (Fin 1))
       [0..<length mirror]"
  by (simp add: all_emitted_eq comp_def)

lemma in_all_emitted:
  "x \<in> set (all_emitted P q act mirror) \<Longrightarrow>
     idx x < length mirror \<and> group_searchable (mirror ! idx x) \<and>
     val x = final_score P q act (mirror ! idx x) \<and> dgt (val x) (Fin 1)"
  by (auto simp: all_emitted_eq)

lemma ranked_before_iff:
  "val a \<noteq> NaN \<Longrightarrow> val b \<noteq> NaN \<Longrightarrow>
     ranked_before a b = (val a = val b \<or> dgt (val a) (val b))"
  unfolding ranked_before_def by (cases "val a"; cases "val b") auto

definition at_or_above :: "search_result \<Rightarrow> search_result \<Rightarrow> bool" where
  "at_or_above a b =
     (result_score a = result_score b \<or> dgt (the (result_score a)) (the (result_score b)))"

lemma sorted_results:
  assumes "\<forall>x\<in>set xs. val x \<noteq> NaN"
  shows "sorted_wrt at_or_above (map (to_result mirror) (g_array_sort cmp_scores xs))"
proof -
  have nn: "\<forall>x\<in>set (g_array_sort cmp_scores xs). val x \<noteq> NaN"
    using assms by (simp add: mset_g_array_sort [THEN mset_eq_setD])
  have "sorted_wrt ranked_before (g_array_sort cmp_scores xs)"
    using assms by (rule sorted_g_array_sort_cmp_scores)
  then have "sorted_wrt (\<lambda>a b. at_or_above (to_result mirror a) (to_result mirror b))
      (g_array_sort cmp_scores xs)"
    by (rule sorted_wrt_mono_rel [rotated])
       (use nn in \<open>auto simp: ranked_before_iff at_or_above_def to_result_def\<close>)
  then show ?thesis by (simp add: sorted_wrt_map)
qed

lemma query_task_fiber_results:
  assumes ids: "\<forall>g\<in>set snapshot. group_searchable g \<longrightarrow>
        group_id g \<noteq> None \<or> (\<forall>b\<in>set act. boost b = None)"
    and bl: "biases_loop P table (g_strjoinv [32] terms) [] = (q, act)"
  shows "\<exists>fin. query_task_fiber P terms snapshot table = Inr fin \<and>
     interpreted_query fin = q \<and>
     n_results fin = length (results fin) \<and>
     distinct (map original_index (results fin)) \<and>
     original_index ` set (results fin) =
       {i. i < length snapshot \<and> group_searchable (snapshot ! i) \<and>
           (\<exists>s. group_score P q act (snapshot ! i) = Inr (Some s) \<and> dgt s (Fin 1))} \<and>
     (\<forall>r\<in>set (results fin).
        result_group r = snapshot ! original_index r \<and>
        group_score P q act (result_group r) = Inr (result_score r)) \<and>
     sorted_wrt at_or_above (results fin)"
proof -
  let ?all = "all_emitted P q act snapshot"
  let ?sorted = "g_array_sort cmp_scores ?all"
  let ?fin = "\<lparr> interpreted_query = q, results = map (to_result snapshot) ?sorted,
               n_results = length ?all \<rparr>"
  have hid: "\<forall>g\<in>set snapshot. lookup_safe act g" using ids by (simp add: lookup_safe_def)
  have run: "query_task_fiber P terms snapshot table = Inr ?fin"
    using query_task_fiber_eq [OF hid bl] .
  have ms: "mset ?sorted = mset ?all" by (rule mset_g_array_sort)
  then have st: "set ?sorted = set ?all" by (rule mset_eq_setD)
  have len: "length ?sorted = length ?all" using ms by (metis size_mset)
  have oi: "map original_index (map (to_result snapshot) ?sorted) = map idx ?sorted"
    by (simp add: to_result_def comp_def)
  have "mset (map idx ?sorted) = mset (map idx ?all)" using ms by (metis mset_map)
  then have dist: "distinct (map idx ?sorted)"
    by (metis mset_eq_imp_distinct_iff map_idx_all_emitted distinct_filter distinct_upt)
  have gs: "\<And>i. i < length snapshot \<Longrightarrow> group_score P q act (snapshot ! i) =
      Inr (if group_searchable (snapshot ! i) then Some (final_score P q act (snapshot ! i)) else None)"
    using hid by (simp add: group_score_lookup_safe)
  have sets: "idx ` set ?sorted =
      {i. i < length snapshot \<and> group_searchable (snapshot ! i) \<and>
          (\<exists>s. group_score P q act (snapshot ! i) = Inr (Some s) \<and> dgt s (Fin 1))}"
  proof -
    have "idx ` set ?sorted = set (map idx ?all)" by (simp add: st)
    also have "\<dots> = {i. i < length snapshot \<and> group_searchable (snapshot ! i) \<and>
          dgt (final_score P q act (snapshot ! i)) (Fin 1)}"
      by (auto simp: map_idx_all_emitted)
    also have "\<dots> = {i. i < length snapshot \<and> group_searchable (snapshot ! i) \<and>
          (\<exists>s. group_score P q act (snapshot ! i) = Inr (Some s) \<and> dgt s (Fin 1))}"
      by (auto simp: gs)
    finally show ?thesis .
  qed
  have each: "\<forall>r\<in>set (map (to_result snapshot) ?sorted).
        result_group r = snapshot ! original_index r \<and>
        group_score P q act (result_group r) = Inr (result_score r)"
  proof
    fix r assume "r \<in> set (map (to_result snapshot) ?sorted)"
    then obtain x where x: "x \<in> set ?all" "r = to_result snapshot x" by (auto simp: st)
    from in_all_emitted [OF x(1)] gs [of "idx x"] x(2)
    show "result_group r = snapshot ! original_index r \<and>
        group_score P q act (result_group r) = Inr (result_score r)"
      by (simp add: to_result_def)
  qed
  have nn: "\<forall>x\<in>set ?all. val x \<noteq> NaN"
    by (auto dest!: in_all_emitted dest: dgt_not_NaN)
  have srt: "sorted_wrt at_or_above (map (to_result snapshot) ?sorted)"
    using nn by (rule sorted_results)
  have img: "original_index ` set (map (to_result snapshot) ?sorted) = idx ` set ?sorted"
    by (metis oi set_map)
  have res: "results ?fin = map (to_result snapshot) ?sorted" by simp
  show ?thesis
  proof (intro exI [of _ ?fin] conjI)
    show "query_task_fiber P terms snapshot table = Inr ?fin" by (rule run)
    show "interpreted_query ?fin = q" by simp
    show "n_results ?fin = length (results ?fin)" by (simp add: len)
    show "distinct (map original_index (results ?fin))" unfolding res oi by (rule dist)
    show "original_index ` set (results ?fin) =
       {i. i < length snapshot \<and> group_searchable (snapshot ! i) \<and>
           (\<exists>s. group_score P q act (snapshot ! i) = Inr (Some s) \<and> dgt s (Fin 1))}"
      unfolding res img by (rule sets)
    show "\<forall>r\<in>set (results ?fin).
        result_group r = snapshot ! original_index r \<and>
        group_score P q act (result_group r) = Inr (result_score r)"
      unfolding res by (rule each)
    show "sorted_wrt at_or_above (results ?fin)" unfolding res by (rule srt)
  qed
qed

subsection \<open>The shards and the candidates they score\<close>

text \<open>
  What the pass of the loop of \<open>query_sub_task_fiber\<close> for the candidate at index
  \<open>k\<close> yields: a fault, or the entries it appends to the scores (none or one).
  \<open>collect\<close> awaits a list of such outcomes and appends their entries. A sub task
  is the passes for the indices of its range, one after the other; the coordinator
  collects its sub tasks; the query is the passes for all indices of the snapshot.
\<close>

definition scored ::
  "'rx platform \<Rightarrow> utf8 \<Rightarrow> 'rx bias_data list \<Rightarrow> entry_group list \<Rightarrow> dbl \<Rightarrow> nat \<Rightarrow> fault + Score list" where
  "scored P q act mirror threshold k =
     (case group_score P q act (mirror ! k) of
        Inl f \<Rightarrow> Inl f
      | Inr None \<Rightarrow> Inr []
      | Inr (Some score) \<Rightarrow>
          Inr (if dgt score threshold then [\<lparr> idx = k, val = score \<rparr>] else []))"

definition collect :: "(fault + 'a list) list \<Rightarrow> fault + 'a list" where
  "collect futures = (case await_all futures of Inl f \<Rightarrow> Inl f | Inr outs \<Rightarrow> Inr (concat outs))"

lemma collect_Nil: "collect [] = Inr []"
  by (simp add: collect_def)

lemma collect_Cons:
  "collect (x # xs) =
     (case x of Inl f \<Rightarrow> Inl f
      | Inr a \<Rightarrow> (case collect xs of Inl f \<Rightarrow> Inl f | Inr b \<Rightarrow> Inr (a @ b)))"
  by (simp add: collect_def split: sum.splits)

lemma collect_append:
  "collect (xs @ ys) =
     (case collect xs of Inl f \<Rightarrow> Inl f
      | Inr a \<Rightarrow> (case collect ys of Inl f \<Rightarrow> Inl f | Inr b \<Rightarrow> Inr (a @ b)))"
  by (induction xs) (simp_all add: collect_Nil collect_Cons split: sum.splits)

lemma collect_nested:
  "collect (map (\<lambda>i. collect (map g (r i))) is) = collect (map g (concat (map r is)))"
  by (induction "is") (simp_all add: collect_Nil collect_Cons collect_append split: sum.splits)

lemma sub_task_loop_collect:
  assumes "\<forall>i\<in>set is. offset + i < length mirror"
  shows "sub_task_loop P q mirror threshold offset act is out =
     (case collect (map (\<lambda>i. scored P q act mirror threshold (offset + i)) is) of
        Inl f \<Rightarrow> Inl f | Inr new \<Rightarrow> Inr (out @ new))"
  using assms
proof (induction "is" arbitrary: out)
  case Nil
  show ?case by (simp add: collect_Nil)
next
  case (Cons i "is")
  then have i: "offset + i < length mirror" by simp
  from Cons have rest: "\<And>out. sub_task_loop P q mirror threshold offset act is out =
     (case collect (map (\<lambda>i. scored P q act mirror threshold (offset + i)) is) of
        Inl f \<Rightarrow> Inl f | Inr new \<Rightarrow> Inr (out @ new))"
    by simp
  show ?case using i
    by (simp add: rest collect_Cons scored_def split: sum.splits option.splits)
qed

lemma query_sub_task_fiber_collect:
  assumes "offset + len \<le> length mirror"
  shows "query_sub_task_fiber P q mirror threshold offset len act =
     collect (map (scored P q act mirror threshold) [offset..<offset + len])"
proof -
  have "\<forall>i\<in>set [0..<len]. offset + i < length mirror"
    using assms by auto
  from sub_task_loop_collect [OF this, where P = P and q = q and threshold = threshold
      and act = act and out = "[]"]
  have "query_sub_task_fiber P q mirror threshold offset len act =
     collect (map (\<lambda>i. scored P q act mirror threshold (offset + i)) [0..<len])"
    by (simp add: query_sub_task_fiber_def split: sum.splits)
  moreover have "map (\<lambda>i. scored P q act mirror threshold (offset + i)) [0..<len] =
     map (scored P q act mirror threshold) [offset..<offset + len]"
    by (simp add: upt_shift)
  ultimately show ?thesis by simp
qed

definition finished ::
  "utf8 \<Rightarrow> entry_group list \<Rightarrow> Score list \<Rightarrow> finished_search_query" where
  "finished q mirror scores =
     \<lparr> interpreted_query = q,
       results = map (to_result mirror) (if scores = [] then [] else g_array_sort cmp_scores scores),
       n_results = length scores \<rparr>"

lemma length_g_array_sort: "length (g_array_sort cmp xs) = length xs"
  by (metis mset_g_array_sort size_mset)

lemma query_task_fiber_dispatch:
  assumes bl: "biases_loop P table (g_strjoinv [32] terms) [] = (q, act)"
  shows "query_task_fiber P terms mirror table =
     (case collect (map (\<lambda>i. query_sub_task_fiber P q mirror (Fin 1)
                               (work_offset_of P (length mirror) i)
                               (work_length_of P (length mirror) i) act)
                      [0..<n_sub_tasks_of P (length mirror)]) of
        Inl f \<Rightarrow> Inl f
      | Inr scores \<Rightarrow> Inr (finished q mirror scores))"
  unfolding query_task_fiber_def Let_def bl prod.case collect_def
  by (auto split: sum.splits simp: finished_def to_result_def [abs_def] length_g_array_sort)

lemma query_task_fiber_collect:
  assumes bl: "biases_loop P table (g_strjoinv [32] terms) [] = (q, act)"
  shows "query_task_fiber P terms mirror table =
     (case collect (map (scored P q act mirror (Fin 1)) [0..<length mirror]) of
        Inl f \<Rightarrow> Inl f
      | Inr scores \<Rightarrow> Inr (finished q mirror scores))"
proof -
  let ?n = "length mirror"
  let ?k = "n_sub_tasks_of P ?n"
  let ?range = "\<lambda>i. [work_offset_of P ?n i ..< work_offset_of P ?n i + work_length_of P ?n i]"
  have "map (\<lambda>i. query_sub_task_fiber P q mirror (Fin 1) (work_offset_of P ?n i)
        (work_length_of P ?n i) act) [0..<?k]
      = map (\<lambda>i. collect (map (scored P q act mirror (Fin 1)) (?range i))) [0..<?k]"
    by (rule map_cong) (simp_all add: query_sub_task_fiber_collect shard_in_range)
  then have "collect (map (\<lambda>i. query_sub_task_fiber P q mirror (Fin 1) (work_offset_of P ?n i)
        (work_length_of P ?n i) act) [0..<?k])
      = collect (map (scored P q act mirror (Fin 1)) (concat (map ?range [0..<?k])))"
    by (simp only: collect_nested)
  also have "\<dots> = collect (map (scored P q act mirror (Fin 1)) [0..<?n])"
    by (simp only: shard_ranges_partition)
  finally show ?thesis
    by (simp only: query_task_fiber_dispatch [OF bl])
qed

lemma shard_of_index:
  assumes "j < n"
  shows "\<exists>!i. i < n_sub_tasks_of P n \<and> work_offset_of P n i \<le> j \<and>
           j < work_offset_of P n i + work_length_of P n i"
proof -
  let ?r = "\<lambda>i. [work_offset_of P n i ..< work_offset_of P n i + work_length_of P n i]"
  from assms have "j \<in> set (concat (map ?r [0..<n_sub_tasks_of P n]))"
    by (simp only: shard_ranges_partition) simp
  then obtain i where i: "i < n_sub_tasks_of P n" "work_offset_of P n i \<le> j"
      "j < work_offset_of P n i + work_length_of P n i"
    by auto
  show ?thesis
  proof (rule ex1I [of _ i])
    show "i < n_sub_tasks_of P n \<and> work_offset_of P n i \<le> j \<and>
        j < work_offset_of P n i + work_length_of P n i"
      using i by simp
  next
    fix i'
    assume i': "i' < n_sub_tasks_of P n \<and> work_offset_of P n i' \<le> j \<and>
        j < work_offset_of P n i' + work_length_of P n i'"
    show "i' = i"
    proof (rule ccontr)
      assume "i' \<noteq> i"
      then consider "i' < i" | "i < i'" by linarith
      then show False
      proof cases
        case 1
        with i i' shard_of_index_unique [of i' i P n j] show False by simp
      next
        case 2
        with i i' shard_of_index_unique [of i i' P n j] show False by simp
      qed
    qed
  qed
qed

text \<open>
  The only fault of a pass is the lookup of a NULL identifier in a boost table; a query
  with such a pass has no result.
\<close>

lemma collect_fault:
  assumes "Inl f \<in> set xs" and "\<And>f'. Inl f' \<in> set xs \<Longrightarrow> f' = f"
  shows "collect xs = Inl f"
  using assms
proof (induction xs)
  case Nil
  from Nil(1) show ?case by simp
next
  case (Cons x xs)
  show ?case
  proof (cases x)
    case (Inl f')
    then have "Inl f' \<in> set (x # xs)" by simp
    then have "f' = f" by (rule Cons.prems(2))
    with Inl show ?thesis by (simp add: collect_Cons)
  next
    case (Inr a)
    with Cons.prems(1) have m: "Inl f \<in> set xs" by auto
    have "collect xs = Inl f"
    proof (rule Cons.IH [OF m])
      fix f' assume "Inl f' \<in> set xs"
      then have "Inl f' \<in> set (x # xs)" by simp
      then show "f' = f" by (rule Cons.prems(2))
    qed
    with Inr show ?thesis by (simp add: collect_Cons)
  qed
qed

lemma active_biases_loop_None:
  "active_biases_loop P bs None score =
     (if \<forall>b\<in>set bs. boost b = None then Inr score else Inl Null_Dereference)"
proof (induction bs)
  case Nil
  show ?case by simp
next
  case (Cons b bs)
  show ?case by (cases "boost b") (simp_all add: Cons)
qed

lemma group_score_fault:
  "group_score P q act grp = Inl f \<longleftrightarrow> f = Null_Dereference \<and> \<not> lookup_safe act grp"
proof (cases "lookup_safe act grp")
  case True
  then show ?thesis by (simp add: group_score_lookup_safe)
next
  case False
  then have "group_searchable grp" "group_id grp = None" "\<not> (\<forall>b\<in>set act. boost b = None)"
    by (auto simp: lookup_safe_def)
  then have "group_score P q act grp = Inl Null_Dereference"
    by (simp add: group_score_def active_biases_loop_None)
  with False show ?thesis by auto
qed

lemma scored_fault:
  "scored P q act mirror threshold k = Inl f \<longleftrightarrow>
     f = Null_Dereference \<and> \<not> lookup_safe act (mirror ! k)"
proof -
  have "scored P q act mirror threshold k = Inl f \<longleftrightarrow>
      group_score P q act (mirror ! k) = Inl f"
    by (simp add: scored_def split: sum.splits option.splits)
  then show ?thesis by (simp only: group_score_fault)
qed

lemma query_faults:
  assumes "terms \<noteq> []" and "hd terms \<noteq> []"
    and "model self = Some snapshot" and "snapshot \<noteq> []"
    and bl: "biases_loop P (biases_mirror self) (g_strjoinv [32] terms) [] = (q, act)"
    and bad: "\<exists>g\<in>set snapshot. group_searchable g \<and> group_id g = None \<and>
        (\<exists>b\<in>set act. boost b \<noteq> None)"
  shows "bz_search_engine_query P self terms = Inl Null_Dereference"
proof -
  have run: "bz_search_engine_query P self terms =
      query_task_fiber P terms snapshot (biases_mirror self)"
    using assms(1-4) by (simp add: bz_search_engine_query_def)
  from bad obtain g where g: "g \<in> set snapshot" "group_searchable g" "group_id g = None"
      "\<exists>b\<in>set act. boost b \<noteq> None"
    by blast
  from g(1) obtain k where k0: "k < length snapshot" "snapshot ! k = g"
    by (auto simp: in_set_conv_nth)
  have "\<not> lookup_safe act g" using g(2-4) by (auto simp: lookup_safe_def)
  with k0 have k: "k < length snapshot" "\<not> lookup_safe act (snapshot ! k)" by simp_all
  let ?xs = "map (scored P q act snapshot (Fin 1)) [0..<length snapshot]"
  from k have "scored P q act snapshot (Fin 1) k = Inl Null_Dereference"
    by (simp add: scored_fault)
  with k(1) have "?xs ! k = Inl Null_Dereference" by simp
  moreover have "k < length ?xs" using k(1) by simp
  ultimately have m: "Inl Null_Dereference \<in> set ?xs" by (metis nth_mem)
  have "collect ?xs = Inl Null_Dereference"
  proof (rule collect_fault [OF m])
    fix f' assume "Inl f' \<in> set ?xs"
    then obtain j where "scored P q act snapshot (Fin 1) j = Inl f'" by auto
    then show "f' = Null_Dereference" by (simp add: scored_fault)
  qed
  then show ?thesis
    unfolding run query_task_fiber_collect [OF bl] by simp
qed


section \<open>The bias table and the loop over it\<close>


text \<open>
  One pass of the loop over the table, told in two parts: whether the entry is collected
  at the working query, and the working query after it.
\<close>

definition bias_matches :: "'rx platform \<Rightarrow> 'rx bias_data \<Rightarrow> utf8 \<Rightarrow> bool" where
  "bias_matches P bias query_utf8 =
     (\<not> invalid bias \<and> (case regex bias of None \<Rightarrow> False | Some rx \<Rightarrow> g_regex_match P rx query_utf8))"

definition rewritten :: "'rx platform \<Rightarrow> 'rx bias_data \<Rightarrow> utf8 \<Rightarrow> utf8" where
  "rewritten P bias query_utf8 =
     (case (regex bias, convert_to bias) of
        (Some rx, Some replacement) \<Rightarrow>
          (case g_regex_replace P rx query_utf8 replacement of
             None \<Rightarrow> query_utf8 | Some tmp \<Rightarrow> tmp)
      | _ \<Rightarrow> query_utf8)"

lemma biases_loop_step:
  "biases_loop P (b # rest) q act =
     (if bias_matches P b q then biases_loop P rest (rewritten P b q) (act @ [b])
      else biases_loop P rest q act)"
  by (auto simp: bias_matches_def rewritten_def Let_def split: option.splits)

lemma biases_loop_acc:
  "biases_loop P bs q act = (fst (biases_loop P bs q []), act @ snd (biases_loop P bs q []))"
proof (induction bs arbitrary: q act)
  case Nil
  show ?case by simp
next
  case (Cons b bs)
  show ?case
  proof (cases "bias_matches P b q")
    case True
    have "biases_loop P bs (rewritten P b q) (act @ [b]) =
        (fst (biases_loop P bs (rewritten P b q) []),
         (act @ [b]) @ snd (biases_loop P bs (rewritten P b q) []))"
      by (rule Cons.IH)
    moreover have "biases_loop P bs (rewritten P b q) [b] =
        (fst (biases_loop P bs (rewritten P b q) []),
         [b] @ snd (biases_loop P bs (rewritten P b q) []))"
      by (rule Cons.IH)
    ultimately show ?thesis
      using True by (simp add: biases_loop_step del: biases_loop.simps(2))
  next
    case False
    with Cons.IH [of q act] show ?thesis
      by (simp add: biases_loop_step del: biases_loop.simps(2))
  qed
qed

lemma biases_loop_append:
  "biases_loop P (xs @ ys) q act =
     (case biases_loop P xs q act of (q', act') \<Rightarrow> biases_loop P ys q' act')"
  by (induction xs arbitrary: q act) (simp_all add: biases_loop_step del: biases_loop.simps(2))


lemma biases_loop_active_valid:
  "b \<in> set (snd (biases_loop P bs q [])) \<Longrightarrow> b \<in> set bs \<and> \<not> invalid b"
proof (induction bs arbitrary: q)
  case Nil
  then show ?case by simp
next
  case (Cons a bs)
  show ?case
  proof (cases "bias_matches P a q")
    case True
    with Cons.prems have "b \<in> set (snd (biases_loop P bs (rewritten P a q) [a]))"
      by (simp add: biases_loop_step del: biases_loop.simps(2))
    then have "b = a \<or> b \<in> set (snd (biases_loop P bs (rewritten P a q) []))"
      by (subst (asm) biases_loop_acc) auto
    with True Cons.IH show ?thesis by (auto simp: bias_matches_def)
  next
    case False
    with Cons.prems have "b \<in> set (snd (biases_loop P bs q []))"
      by (simp add: biases_loop_step del: biases_loop.simps(2))
    with Cons.IH show ?thesis by auto
  qed
qed

text \<open>What the claim calls an invalid specification.\<close>

definition spec_rejected :: "'rx platform \<Rightarrow> search_bias \<Rightarrow> bool" where
  "spec_rejected P bias =
     (spec_regex bias = None \<or>
      (\<exists>pattern. spec_regex bias = Some pattern \<and> g_regex_new P pattern = None) \<or>
      (spec_convert_to bias = None \<and>
       \<not> (spec_boost_appids bias \<noteq> None \<and>
          (spec_linear_boost bias \<noteq> None \<or> spec_exponential_boost bias \<noteq> None))) \<or>
      (spec_linear_boost bias \<noteq> None \<and> spec_exponential_boost bias \<noteq> None))"

lemma bias_data_of_invalid: "invalid (bias_data_of P bias) = spec_rejected P bias"
  by (auto simp: bias_data_of_def spec_rejected_def SKIP_def bias_data_new_def Let_def
      split: option.splits prod.splits)

lemma bias_data_of_rejected: "spec_rejected P bias \<Longrightarrow> bias_data_of P bias = SKIP"
  by (auto simp: bias_data_of_def spec_rejected_def split: option.splits)

lemma biases_changed_loop_append:
  "biases_changed_loop P specs position (xs @ ys) mirror =
     biases_changed_loop P specs position ys (biases_changed_loop P specs position xs mirror)"
  by (induction xs arbitrary: mirror) simp_all

lemma biases_changed_loop_upt:
  "position \<le> length mirror \<Longrightarrow>
   biases_changed_loop P specs position [0..<n] mirror =
     take position mirror @ map (\<lambda>i. bias_data_of P (specs ! (position + i))) [0..<n] @
     drop position mirror"
proof (induction n)
  case 0
  show ?case by simp
next
  case (Suc n)
  then show ?case
    by (simp add: biases_changed_loop_append g_ptr_array_insert_def)
qed

lemma set_biases_mirror:
  "biases_mirror (bz_search_engine_set_biases P self (Some specs)) = map (bias_data_of P) specs"
proof -
  have "map (\<lambda>i. bias_data_of P (specs ! i)) [0..<length specs] = map (bias_data_of P) specs"
    by (simp add: map_nth flip: map_map [unfolded comp_def])
  then show ?thesis
    by (simp add: bz_search_engine_set_biases_def biases_changed_def biases_changed_loop_upt)
qed

lemma biases_loop_skip_invalid:
  "invalid b \<Longrightarrow> biases_loop P (pre @ b # post) q act = biases_loop P (pre @ post) q act"
  by (simp add: biases_loop_append biases_loop_step bias_matches_def del: biases_loop.simps(2))

lemma biases_changed_eq:
  assumes "position + removed \<le> length mirror"
  shows "biases_changed P mirror position removed added specs =
     take position mirror @ map (\<lambda>i. bias_data_of P (specs ! (position + i))) [0..<added] @
     drop (position + removed) mirror"
proof -
  let ?m = "if 0 < removed then g_ptr_array_remove_range mirror position removed else mirror"
  have m: "?m = take position mirror @ drop (position + removed) mirror"
    by (simp add: g_ptr_array_remove_range_def)
  have "position \<le> length ?m" using assms unfolding m by simp
  from biases_changed_loop_upt [OF this]
  have "biases_changed P mirror position removed added specs =
     take position ?m @ map (\<lambda>i. bias_data_of P (specs ! (position + i))) [0..<added] @
     drop position ?m"
    by (simp add: biases_changed_def)
  also have "take position ?m = take position mirror" using assms unfolding m by simp
  also have "drop position ?m = drop (position + removed) mirror" using assms unfolding m by simp
  finally show ?thesis .
qed

section \<open>The two branches of the public operation\<close>

definition every_candidate :: "entry_group list \<Rightarrow> finished_search_query" where
  \<comment> \<open>The result of the first branch of \<open>bz_search_engine_query\<close>.\<close>
  "every_candidate snapshot =
     \<lparr> interpreted_query = [],
       results = map (\<lambda>i. \<lparr> result_group = snapshot ! i, original_index = i,
                              result_score = None \<rparr>) [0..<length snapshot],
       n_results = length snapshot \<rparr>"

lemma bz_search_engine_query_cases:
  "terms \<noteq> [] \<Longrightarrow>
   bz_search_engine_query P self terms =
     (if model self = None \<or> model self = Some [] \<or> hd terms = []
      then Inr (every_candidate (case model self of None \<Rightarrow> [] | Some m \<Rightarrow> m))
      else query_task_fiber P terms (the (model self)) (biases_mirror self))"
  by (auto simp: bz_search_engine_query_def every_candidate_def Let_def split: option.splits)

lemma every_candidate_results:
  "map original_index (results (every_candidate snapshot)) = [0..<length snapshot]"
  "map result_group (results (every_candidate snapshot)) = snapshot"
  "\<forall>r\<in>set (results (every_candidate snapshot)). result_score r = None"
  by (simp_all add: every_candidate_def comp_def map_nth)

subsection \<open>A query made of space separators\<close>

text \<open>
  Such a query is one token of length 0, so every match adds \<open>0 / n\<close> to the score:
  0, or NaN when the field token has length 0 too.
\<close>

lemma utf8_skip_loop_all_space:
  "\<forall>c\<in>set p. is_space_separator P c \<Longrightarrow> utf8_skip_loop P p s False n = (s, [], n)"
  by (induction p) simp_all

lemma utf8_tokens_Nil: "utf8_tokens P [] = []"
  by (simp add: utf8_tokens.simps utf8_skip_to_next_of_class_def)

lemma utf8_tokens_all_space:
  "t \<noteq> [] \<Longrightarrow> \<forall>c\<in>set t. is_space_separator P c \<Longrightarrow> utf8_tokens P t = [(t, [], 0)]"
  by (subst utf8_tokens.simps)
     (simp add: utf8_skip_to_next_of_class_def utf8_skip_loop_all_space utf8_tokens_Nil)

definition zero_or_NaN :: "dbl \<Rightarrow> bool" where
  "zero_or_NaN x = (x = Fin 0 \<or> x = NaN)"

lemma zero_or_NaN_simps:
  "zero_or_NaN (Fin 0)" "zero_or_NaN NaN"
  "zero_or_NaN x \<Longrightarrow> zero_or_NaN y \<Longrightarrow> zero_or_NaN (dadd x y)"
  "zero_or_NaN x \<Longrightarrow> zero_or_NaN (dmul x (Fin c))"
  "zero_or_NaN x \<Longrightarrow> \<not> dgt x (Fin 1)"
  "zero_or_NaN (double_of_gsize_div 0 n)"
  by (auto simp: zero_or_NaN_def double_of_gsize_div_def)

lemma against_tokens_loop_empty_token:
  "zero_or_NaN score \<Longrightarrow>
   zero_or_NaN (fst (against_tokens_loop P toks qs qe 0 accept_min_size score has_match))"
proof (induction toks arbitrary: score has_match)
  case Nil
  then show ?case by simp
next
  case (Cons tok toks)
  obtain a e n where tok: "tok = (a, e, n)" by (cases tok)
  have "zero_or_NaN (dadd score (double_of_gsize_div (gsize_mul 0 0) n))"
    using Cons.prems by (simp add: zero_or_NaN_simps gsize_mul_def)
  with Cons show ?case unfolding tok by simp
qed

lemma test_strings_space_query:
  assumes "t \<noteq> []" and "\<forall>c\<in>set t. is_space_separator P c"
  shows "zero_or_NaN (test_strings P t against accept_min_size)"
proof -
  obtain s h where r: "against_tokens_loop P (utf8_tokens P against) t [] 0 accept_min_size (Fin 0) False = (s, h)"
    by (cases "against_tokens_loop P (utf8_tokens P against) t [] 0 accept_min_size (Fin 0) False")
  have "zero_or_NaN (fst (against_tokens_loop P (utf8_tokens P against) t [] 0 accept_min_size (Fin 0) False))"
    by (rule against_tokens_loop_empty_token) (simp add: zero_or_NaN_simps)
  with r have "zero_or_NaN s" by simp
  then show ?thesis
    using assms r by (simp add: test_strings_def utf8_tokens_all_space zero_or_NaN_simps)
qed

lemma weighted_score_space_query:
  assumes "t \<noteq> []" and "\<forall>c\<in>set t. is_space_separator P c"
  shows "zero_or_NaN (weighted_score P t grp)"
proof -
  have e: "\<And>s m. zero_or_NaN (EVALUATE_STRING P t s m)"
    using assms by (simp add: EVALUATE_STRING_def zero_or_NaN_simps test_strings_space_query
        split: option.splits)
  show ?thesis
    unfolding weighted_score_def Let_def by (intro zero_or_NaN_simps e)
qed

lemma biases_loop_no_match:
  "\<forall>b\<in>set table. \<not> bias_matches P b q \<Longrightarrow> biases_loop P table q act = (q, act)"
  by (induction table) (simp_all add: biases_loop_step del: biases_loop.simps(2))

lemma g_array_sort_Nil: "g_array_sort cmp [] = []"
  by (simp add: g_array_sort.simps)

lemma whitespace_query_no_results:
  assumes t: "t \<noteq> []" "\<forall>c\<in>set t. is_space_separator P c"
    and nb: "\<forall>b\<in>set table. \<not> bias_matches P b t"
    and ne: "\<forall>g\<in>set snapshot. group_searchable g \<longrightarrow> \<not> exact_match P t g"
  shows "query_task_fiber P [t] snapshot table =
     Inr \<lparr> interpreted_query = t, results = [], n_results = 0 \<rparr>"
proof -
  have bl: "biases_loop P table (g_strjoinv [32] [t]) [] = (t, [])"
    using nb by (simp add: biases_loop_no_match)
  have safe: "\<forall>g\<in>set snapshot. lookup_safe [] g" by (simp add: lookup_safe_def)
  have "\<And>i. i < length snapshot \<Longrightarrow> emitted P t [] snapshot (Fin 1) i = []"
  proof -
    fix i assume i: "i < length snapshot"
    show "emitted P t [] snapshot (Fin 1) i = []"
    proof (cases "group_searchable (snapshot ! i)")
      case True
      with ne i have "\<not> exact_match P t (snapshot ! i)" by simp
      then have "final_score P t [] (snapshot ! i) = weighted_score P t (snapshot ! i)"
        by (simp add: final_score_def pre_bias_score_def)
      with weighted_score_space_query [OF t, of "snapshot ! i"]
      show ?thesis by (simp add: emitted_def zero_or_NaN_simps)
    next
      case False
      then show ?thesis by (simp add: emitted_def)
    qed
  qed
  then have "all_emitted P t [] snapshot = []"
    by (simp add: all_emitted_def)
  with query_task_fiber_eq [OF safe bl] show ?thesis
    by (simp add: g_array_sort_Nil)
qed

section \<open>The scoring function and the score of the claim\<close>

text \<open>
  The score as claim C1 words it, with the separators and the case folding as
  parameters: the tokens of a string are its maximal runs of characters that are no
  separators; a query token matches a field token in which it occurs, up to case, at some
  offset; the field tokens shorter than a positive minimum length are left out; the
  score is 0 when some query token matches no field token, and otherwise the sum of
  \<open>(length q)\<^sup>2 / length f\<close> over the pairs that match. The sum is one of
  doubles: every term is the quotient \<open>(double) (length q)\<^sup>2 / (double) (length f)\<close>,
  and the terms are added to 0.0 one by one, query token by query token and, for one
  query token, field token by field token.
\<close>

function whitespace_tokens :: "(gunichar \<Rightarrow> bool) \<Rightarrow> utf8 \<Rightarrow> utf8 list" where
  "whitespace_tokens sep s =
     (let s' = dropWhile sep s
      in if s' = [] then []
         else takeWhile (\<lambda>c. \<not> sep c) s' # whitespace_tokens sep (dropWhile (\<lambda>c. \<not> sep c) s'))"
  by pat_completeness auto
termination
proof (relation "measure (\<lambda>(sep, s). length s)", goal_cases)
  case 1
  show ?case by simp
next
  case (2 sep s s')
  then obtain c cs where s': "dropWhile sep s = c # cs" and c: "\<not> sep c"
    by (metis hd_dropWhile list.exhaust_sel)
  have "length (dropWhile (\<lambda>c. \<not> sep c) (c # cs)) \<le> length cs"
    using c by (simp add: length_dropWhile_le)
  moreover have "length (c # cs) \<le> length s"
    by (metis s' length_dropWhile_le)
  ultimately show ?case using 2 s' by simp
qed

declare whitespace_tokens.simps [simp del]

definition occurs_in :: "(gunichar \<Rightarrow> gunichar) \<Rightarrow> utf8 \<Rightarrow> utf8 \<Rightarrow> bool" where
  "occurs_in lower q f =
     (length q \<le> length f \<and>
      list_ex (\<lambda>i. map lower (take (length q) (drop i f)) = map lower q)
        [0..<Suc (length f - length q)])"

definition accepted :: "int \<Rightarrow> utf8 \<Rightarrow> bool" where
  "accepted accept_min_size f = (\<not> (0 < accept_min_size \<and> int (length f) < accept_min_size))"

definition token_terms :: "(gunichar \<Rightarrow> gunichar) \<Rightarrow> utf8 \<Rightarrow> utf8 list \<Rightarrow> dbl list" where
  "token_terms lower q fs =
     map (\<lambda>f. double_of_gsize_div (length q * length q) (length f)) (filter (occurs_in lower q) fs)"

definition claimed_score ::
  "(gunichar \<Rightarrow> bool) \<Rightarrow> (gunichar \<Rightarrow> gunichar) \<Rightarrow> utf8 \<Rightarrow> utf8 \<Rightarrow> int \<Rightarrow> dbl" where
  "claimed_score sep lower query field accept_min_size =
     (let qs = whitespace_tokens sep query;
          fs = filter (accepted accept_min_size) (whitespace_tokens sep field)
      in if list_ex (\<lambda>q. \<not> list_ex (occurs_in lower q) fs) qs then Fin 0
         else foldl dadd (Fin 0) (concat (map (\<lambda>q. token_terms lower q fs) qs)))"

definition unicode_white_space :: "gunichar \<Rightarrow> bool" where
  \<comment> \<open>The code points with the Unicode property White_Space.\<close>
  "unicode_white_space c =
     ((9 \<le> c \<and> c \<le> 13) \<or> c = 32 \<or> c = 133 \<or> c = 160 \<or> c = 5760 \<or>
      (8192 \<le> c \<and> c \<le> 8202) \<or> c = 8232 \<or> c = 8233 \<or> c = 8239 \<or> c = 8287 \<or> c = 12288)"

text \<open>
  The loops of \<open>test_strings\<close> in closed form, for a query token that is not empty.
\<close>

lemma utf8_skip_loop_skipped:
  "utf8_skip_loop P p s True n =
     (s, dropWhile (\<lambda>c. \<not> is_space_separator P c) p,
      n + length (takeWhile (\<lambda>c. \<not> is_space_separator P c) p))"
  by (induction p arbitrary: n) simp_all

lemma utf8_skip_loop_not_skipped:
  "utf8_skip_loop P p s False n =
     (let p' = dropWhile (is_space_separator P) p
      in if p' = [] then (s, [], n)
         else (p', dropWhile (\<lambda>c. \<not> is_space_separator P c) p',
               n + length (takeWhile (\<lambda>c. \<not> is_space_separator P c) p')))"
  by (induction p) (simp_all add: utf8_skip_loop_skipped Let_def)

lemma utf8_tokens_unfold:
  "utf8_tokens P s =
     (let s' = dropWhile (is_space_separator P) s
      in if s' = [] then (if s = [] then [] else [(s, [], 0)])
         else (s', dropWhile (\<lambda>c. \<not> is_space_separator P c) s',
               length (takeWhile (\<lambda>c. \<not> is_space_separator P c) s'))
              # utf8_tokens P (dropWhile (\<lambda>c. \<not> is_space_separator P c) s'))"
  by (subst utf8_tokens.simps)
     (simp add: utf8_skip_to_next_of_class_def utf8_skip_loop_not_skipped Let_def utf8_tokens_Nil)

lemma query_chars_loop_eq:
  "length q \<le> length v \<Longrightarrow>
   query_chars_loop P (q @ qe) qe v =
     (map (g_unichar_tolower P) (take (length q) v) = map (g_unichar_tolower P) q)"
proof (induction q arbitrary: v)
  case Nil
  show ?case by (cases qe) simp_all
next
  case (Cons c q)
  then obtain a v' where v: "v = a # v'" by (cases v) auto
  with Cons show ?case by (auto simp: g_utf8_get_char_def)
qed

definition occurs_at :: "(gunichar \<Rightarrow> gunichar) \<Rightarrow> utf8 \<Rightarrow> utf8 \<Rightarrow> bool" where
  "occurs_at lower q u = (\<exists>i. i + length q \<le> length u \<and> map lower (take (length q) (drop i u)) = map lower q)"

lemma occurs_at_Cons:
  "occurs_at lower q (a # u) =
     ((length q \<le> Suc (length u) \<and> map lower (take (length q) (a # u)) = map lower q) \<or>
      occurs_at lower q u)"
proof -
  have "occurs_at lower q (a # u) =
      (\<exists>i. i + length q \<le> Suc (length u) \<and> map lower (take (length q) (drop i (a # u))) = map lower q)"
    by (simp add: occurs_at_def)
  also have "\<dots> = ((0 + length q \<le> Suc (length u) \<and> map lower (take (length q) (drop 0 (a # u))) = map lower q) \<or>
      (\<exists>i. Suc i + length q \<le> Suc (length u) \<and> map lower (take (length q) (drop (Suc i) (a # u))) = map lower q))"
    by (metis not0_implies_Suc)
  finally show ?thesis by (simp add: occurs_at_def)
qed

lemma occurs_in_iff: "occurs_in lower q f = occurs_at lower q f"
proof
  assume "occurs_in lower q f"
  then have le: "length q \<le> length f"
    and "\<exists>i\<in>set [0..<Suc (length f - length q)].
          map lower (take (length q) (drop i f)) = map lower q"
    by (simp_all only: occurs_in_def list_ex_iff)
  then obtain i where i: "i \<in> set [0..<Suc (length f - length q)]"
    "map lower (take (length q) (drop i f)) = map lower q"
    by blast
  from i(1) le have "i + length q \<le> length f" by auto
  with i(2) show "occurs_at lower q f" unfolding occurs_at_def by blast
next
  assume "occurs_at lower q f"
  then obtain i where i: "i + length q \<le> length f"
    "map lower (take (length q) (drop i f)) = map lower q"
    unfolding occurs_at_def by blast
  from i(1) have "length q \<le> length f" "i \<in> set [0..<Suc (length f - length q)]" by auto
  with i(2) show "occurs_in lower q f"
    unfolding occurs_in_def list_ex_iff by blast
qed

lemma against_chars_loop_eq:
  assumes "q \<noteq> []"
  shows "length u \<le> n \<Longrightarrow>
   against_chars_loop P (u @ rest) rest n (q @ qe) qe (length q) (n - length u) =
     occurs_at (g_unichar_tolower P) q u"
proof (induction u)
  case Nil
  have "against_chars_loop P rest rest n (q @ qe) qe (length q) n = False"
    by (cases rest) simp_all
  moreover have "\<not> occurs_at (g_unichar_tolower P) q []"
    using assms by (simp add: occurs_at_def)
  ultimately show ?case by simp
next
  case (Cons a u)
  then have n: "Suc (length u) \<le> n" by simp
  then have sub: "gsize_sub n (n - Suc (length u)) = Suc (length u)"
    by (simp add: gsize_sub_def)
  have next_consumed: "Suc (n - Suc (length u)) = n - length u" using n by simp
  show ?case
  proof (cases "Suc (length u) < length q")
    case True
    then have "\<not> occurs_at (g_unichar_tolower P) q (a # u)"
      by (auto simp: occurs_at_def)
    with True show ?thesis by (simp add: sub)
  next
    case False
    then have le: "length q \<le> length ((a # u) @ rest)" by simp
    have "length q - length (a # u) = 0" using False by simp
    then have take: "take (length q) ((a # u) @ rest) = take (length q) (a # u)"
      by (simp only: take_append take_0 append_Nil2)
    have ih: "against_chars_loop P (u @ rest) rest n (q @ qe) qe (length q) (n - length u) =
        occurs_at (g_unichar_tolower P) q u"
      using Cons by simp
    have qc: "query_chars_loop P (q @ qe) qe ((a # u) @ rest) =
        (map (g_unichar_tolower P) (take (length q) (a # u)) = map (g_unichar_tolower P) q)"
      using query_chars_loop_eq [OF le, of P qe] unfolding take .
    have "against_chars_loop P ((a # u) @ rest) rest n (q @ qe) qe (length q) (n - length (a # u)) =
        (query_chars_loop P (q @ qe) qe ((a # u) @ rest) \<or>
         against_chars_loop P (u @ rest) rest n (q @ qe) qe (length q) (n - length u))"
      using False by (simp add: sub next_consumed del: query_chars_loop.simps)
    also have "\<dots> = occurs_at (g_unichar_tolower P) q (a # u)"
      unfolding qc ih occurs_at_Cons [of _ q a u] using False by auto
    finally show ?thesis .
  qed
qed

definition field_tokens :: "'rx platform \<Rightarrow> int \<Rightarrow> utf8 \<Rightarrow> utf8 list" where
  "field_tokens P accept_min_size field =
     filter (accepted accept_min_size) (whitespace_tokens (is_space_separator P) field)"

lemma whitespace_tokens_unfold:
  "whitespace_tokens sep s =
     (if dropWhile sep s = [] then []
      else takeWhile (\<lambda>c. \<not> sep c) (dropWhile sep s) #
           whitespace_tokens sep (dropWhile (\<lambda>c. \<not> sep c) (dropWhile sep s)))"
  by (subst whitespace_tokens.simps) (simp add: Let_def)

lemma takeWhile_not_sep_nonempty:
  "dropWhile sep s \<noteq> [] \<Longrightarrow> takeWhile (\<lambda>c. \<not> sep c) (dropWhile sep s) \<noteq> []"
  by (metis hd_dropWhile list.collapse takeWhile.simps(2) list.distinct(1))

lemma against_tokens_loop_eq:
  assumes q: "q \<noteq> []" "length q * length q < 2 ^ 64"
  shows "against_tokens_loop P (utf8_tokens P field) (q @ qe) qe (length q) accept_min_size
       score has_match =
     (foldl dadd score (token_terms (g_unichar_tolower P) q (field_tokens P accept_min_size field)),
      has_match \<or> list_ex (occurs_in (g_unichar_tolower P) q) (field_tokens P accept_min_size field))"
proof (induction "is_space_separator P" field arbitrary: score has_match rule: whitespace_tokens.induct)
  case (1 s)
  let ?sep = "is_space_separator P"
  let ?s' = "dropWhile ?sep s"
  show ?case
  proof (cases "?s' = []")
    case True
    then have toks: "field_tokens P accept_min_size s = []"
      by (simp add: field_tokens_def whitespace_tokens_unfold [of _ s])
    show ?thesis
    proof (cases s)
      case Nil
      with toks show ?thesis by (simp add: utf8_tokens_Nil token_terms_def)
    next
      case (Cons c cs)
      then have "utf8_tokens P s = [(s, [], 0)]"
        using True by (subst utf8_tokens_unfold) (simp add: Let_def)
      moreover have "\<not> against_chars_loop P s [] 0 (q @ qe) qe (length q) 0"
        using Cons q(1) by (simp add: gsize_sub_def)
      ultimately show ?thesis by (simp add: toks token_terms_def)
    qed
  next
    case False
    let ?f = "takeWhile (\<lambda>c. \<not> ?sep c) ?s'"
    let ?rest = "dropWhile (\<lambda>c. \<not> ?sep c) ?s'"
    have f: "?f \<noteq> []" using False by (rule takeWhile_not_sep_nonempty)
    have utoks: "utf8_tokens P s = (?f @ ?rest, ?rest, length ?f) # utf8_tokens P ?rest"
      by (subst utf8_tokens_unfold) (simp only: Let_def False if_False takeWhile_dropWhile_id)
    have wtoks: "whitespace_tokens ?sep s = ?f # whitespace_tokens ?sep ?rest"
      using False by (subst whitespace_tokens_unfold) simp
    have m: "against_chars_loop P (?f @ ?rest) ?rest (length ?f) (q @ qe) qe (length q) 0 =
        occurs_in (g_unichar_tolower P) q ?f"
      using against_chars_loop_eq [OF q(1), of ?f "length ?f" P ?rest qe]
      by (simp add: occurs_in_iff)
    have mul: "gsize_mul (length q) (length q) = length q * length q"
      using q(2) by (simp add: gsize_mul_def)
    define f where "f = ?f"
    define rest where "rest = ?rest"
    have ih: "\<And>score h. against_tokens_loop P (utf8_tokens P rest) (q @ qe) qe (length q)
          accept_min_size score h =
        (foldl dadd score (token_terms (g_unichar_tolower P) q (field_tokens P accept_min_size rest)),
         h \<or> list_ex (occurs_in (g_unichar_tolower P) q) (field_tokens P accept_min_size rest))"
      unfolding rest_def by (rule 1 [OF refl False])
    have utoks': "utf8_tokens P s = (f @ rest, rest, length f) # utf8_tokens P rest"
      unfolding f_def rest_def by (rule utoks)
    have m': "against_chars_loop P (f @ rest) rest (length f) (q @ qe) qe (length q) 0 =
        occurs_in (g_unichar_tolower P) q f"
      unfolding f_def rest_def by (rule m)
    have ftoks: "field_tokens P accept_min_size s =
        (if accepted accept_min_size f then f # field_tokens P accept_min_size rest
         else field_tokens P accept_min_size rest)"
      unfolding field_tokens_def wtoks f_def rest_def by simp
    show ?thesis
    proof (cases "accepted accept_min_size f")
      case False
      then have "0 < accept_min_size \<and> int (length f) < accept_min_size"
        by (simp add: accepted_def)
      then have "against_tokens_loop P (utf8_tokens P s) (q @ qe) qe (length q) accept_min_size
          score has_match =
        against_tokens_loop P (utf8_tokens P rest) (q @ qe) qe (length q) accept_min_size
          score has_match"
        unfolding utoks' by simp
      with False show ?thesis by (simp only: ih ftoks if_False)
    next
      case True
      then have acc: "\<not> (0 < accept_min_size \<and> int (length f) < accept_min_size)"
        by (simp add: accepted_def)
      show ?thesis
      proof (cases "occurs_in (g_unichar_tolower P) q f")
        case occ: True
        have "against_tokens_loop P (utf8_tokens P s) (q @ qe) qe (length q) accept_min_size
            score has_match =
          against_tokens_loop P (utf8_tokens P rest) (q @ qe) qe (length q) accept_min_size
            (dadd score (double_of_gsize_div (length q * length q) (length f))) True"
          unfolding utoks' using acc occ by (auto simp: m' mul)
        also have "\<dots> = (foldl dadd (dadd score (double_of_gsize_div (length q * length q) (length f)))
              (token_terms (g_unichar_tolower P) q (field_tokens P accept_min_size rest)), True)"
          by (simp only: ih simp_thms)
        finally show ?thesis
          using True occ by (simp add: ftoks token_terms_def)
      next
        case nocc: False
        have "against_tokens_loop P (utf8_tokens P s) (q @ qe) qe (length q) accept_min_size
            score has_match =
          against_tokens_loop P (utf8_tokens P rest) (q @ qe) qe (length q) accept_min_size
            score has_match"
          unfolding utoks' using acc nocc by (auto simp: m')
        then show ?thesis
          using True nocc by (simp add: ih ftoks token_terms_def)
      qed
    qed
  qed
qed

lemma last_dropWhile_suffix:
  assumes "dropWhile p s \<noteq> []"
  shows "last (dropWhile p s) = last s" and "s \<noteq> []"
proof -
  have s: "s = takeWhile p s @ dropWhile p s" by simp
  from assms show "s \<noteq> []" by auto
  from assms show "last (dropWhile p s) = last s"
    by (subst (2) s) (simp only: last_append if_False)
qed

lemma query_tokens_loop_eq:
  assumes "query = [] \<or> \<not> is_space_separator P (last query)" and "length query < 2 ^ 32"
  shows "query_tokens_loop P (utf8_tokens P query) field accept_min_size score =
     (if list_ex (\<lambda>q. \<not> list_ex (occurs_in (g_unichar_tolower P) q)
                         (field_tokens P accept_min_size field))
           (whitespace_tokens (is_space_separator P) query)
      then Fin 0
      else foldl dadd score
             (concat (map (\<lambda>q. token_terms (g_unichar_tolower P) q
                                 (field_tokens P accept_min_size field))
                        (whitespace_tokens (is_space_separator P) query))))"
  using assms
proof (induction "is_space_separator P" query arbitrary: score rule: whitespace_tokens.induct)
  case (1 s)
  let ?sep = "is_space_separator P"
  let ?s' = "dropWhile ?sep s"
  let ?fs = "field_tokens P accept_min_size field"
  show ?case
  proof (cases "?s' = []")
    case True
    have "s = []"
    proof (rule ccontr)
      assume ne: "s \<noteq> []"
      with True have "?sep (last s)" by (simp add: dropWhile_eq_Nil_conv)
      with ne 1(2) show False by simp
    qed
    then show ?thesis
      by (simp add: utf8_tokens_Nil whitespace_tokens_unfold [of _ "[]"])
  next
    case False
    define q where "q = takeWhile (\<lambda>c. \<not> ?sep c) ?s'"
    define rest where "rest = dropWhile (\<lambda>c. \<not> ?sep c) ?s'"
    have qne: "q \<noteq> []" unfolding q_def using False by (rule takeWhile_not_sep_nonempty)
    have "length q \<le> length ?s'" unfolding q_def by (rule length_takeWhile_le)
    also have "\<dots> \<le> length s" by (rule length_dropWhile_le)
    finally have lq: "length q < 2 ^ 32" using 1(3) by simp
    have "length q * length q < 2 ^ 32 * 2 ^ 32"
      using lq by (intro mult_strict_mono) simp_all
    then have qq: "length q * length q < 2 ^ 64" by simp
    have utoks: "utf8_tokens P s = (q @ rest, rest, length q) # utf8_tokens P rest"
      unfolding q_def rest_def
      by (subst utf8_tokens_unfold) (simp only: Let_def False if_False takeWhile_dropWhile_id)
    have wtoks: "whitespace_tokens ?sep s = q # whitespace_tokens ?sep rest"
      unfolding q_def rest_def using False by (subst whitespace_tokens_unfold) simp
    have rest_ok: "rest = [] \<or> \<not> ?sep (last rest)"
    proof (cases "rest = []")
      case True
      then show ?thesis by simp
    next
      case rne: False
      then have "last rest = last ?s'"
        unfolding rest_def by (rule last_dropWhile_suffix(1))
      also have "\<dots> = last s" using False by (rule last_dropWhile_suffix(1))
      finally show ?thesis using 1(2) last_dropWhile_suffix(2) [OF False] by simp
    qed
    have "length rest \<le> length ?s'" unfolding rest_def by (rule length_dropWhile_le)
    also have "\<dots> \<le> length s" by (rule length_dropWhile_le)
    finally have rest_len: "length rest < 2 ^ 32" using 1(3) by simp
    have ih: "\<And>score. query_tokens_loop P (utf8_tokens P rest) field accept_min_size score =
       (if list_ex (\<lambda>q. \<not> list_ex (occurs_in (g_unichar_tolower P) q) ?fs)
             (whitespace_tokens ?sep rest)
        then Fin 0
        else foldl dadd score
               (concat (map (\<lambda>q. token_terms (g_unichar_tolower P) q ?fs)
                          (whitespace_tokens ?sep rest))))"
      using 1(1) [OF refl False] rest_ok rest_len unfolding rest_def by simp
    have al: "against_tokens_loop P (utf8_tokens P field) (q @ rest) rest (length q)
        accept_min_size score False =
       (foldl dadd score (token_terms (g_unichar_tolower P) q ?fs),
        list_ex (occurs_in (g_unichar_tolower P) q) ?fs)"
      using against_tokens_loop_eq [OF qne qq, of P field rest accept_min_size score False] by simp
    show ?thesis
      unfolding utoks wtoks
      by (simp add: al ih)
  qed
qed

lemma test_strings_closed_form:
  assumes "query = [] \<or> \<not> is_space_separator P (last query)" and "length query < 2 ^ 32"
  shows "test_strings P query field accept_min_size =
     claimed_score (is_space_separator P) (g_unichar_tolower P) query field accept_min_size"
  using query_tokens_loop_eq [OF assms, of field accept_min_size "Fin 0"]
  by (simp add: test_strings_def claimed_score_def field_tokens_def Let_def)

subsection \<open>A field of many tokens\<close>

text \<open>
  The query \<open>a\<close> against a field of \<open>n + 1\<close> tokens \<open>a\<close> scores \<open>n + 1\<close>:
  the score of a field has no bound but the one its length gives.
\<close>

lemma whitespace_tokens_separator:
  "sep c \<Longrightarrow> whitespace_tokens sep (c # s) = whitespace_tokens sep s"
  by (simp add: whitespace_tokens_unfold [of sep "c # s"] whitespace_tokens_unfold [of sep s])

lemma whitespace_tokens_repeated:
  assumes "sep b" and "\<not> sep a"
  shows "whitespace_tokens sep (a # concat (replicate n [b, a])) = replicate (Suc n) [a]"
proof (induction n)
  case 0
  show ?case
    using assms by (simp add: whitespace_tokens_unfold [of sep "[a]"] whitespace_tokens_unfold [of sep "[]"])
next
  case (Suc n)
  have "whitespace_tokens sep (a # concat (replicate (Suc n) [b, a])) =
      [a] # whitespace_tokens sep (b # a # concat (replicate n [b, a]))"
    using assms by (subst whitespace_tokens_unfold) simp
  also have "\<dots> = [a] # whitespace_tokens sep (a # concat (replicate n [b, a]))"
    using assms(1) by (simp only: whitespace_tokens_separator)
  finally show ?case by (simp add: Suc)
qed

lemma foldl_dadd_ones: "foldl dadd (Fin x) (replicate n (Fin 1)) = Fin (x + real n)"
  by (induction n arbitrary: x) (simp_all add: algebra_simps)

lemma test_strings_repeated:
  "test_strings example_platform [97] (97 # concat (replicate n [32, 97])) (- 1) =
     Fin (real (Suc n))"
proof -
  let ?P = example_platform
  have sep: "is_space_separator ?P 32" "\<not> is_space_separator ?P 97"
    by (simp_all add: example_platform_def unicode_space_separator_def)
  have q: "whitespace_tokens (is_space_separator ?P) [97] = [[97]]"
    using whitespace_tokens_repeated [OF sep, of 0] by simp
  have f: "whitespace_tokens (is_space_separator ?P) (97 # concat (replicate n [32, 97])) =
      replicate (Suc n) [97]"
    by (rule whitespace_tokens_repeated [OF sep])
  have occ: "occurs_in (g_unichar_tolower ?P) [97] [97]"
    by (simp add: occurs_in_def)
  have acc: "accepted (- 1) [97]" by (simp add: accepted_def)
  have fs: "filter (accepted (- 1)) (replicate (Suc n) [97]) = replicate (Suc n) [97]"
    using acc by (simp only: filter_replicate if_True)
  have tt: "token_terms (g_unichar_tolower ?P) [97] (replicate (Suc n) [97]) =
      replicate (Suc n) (Fin 1)"
    using occ by (simp add: token_terms_def double_of_gsize_div_def del: replicate.simps)
  have c: "claimed_score (is_space_separator ?P) (g_unichar_tolower ?P) [97]
      (97 # concat (replicate n [32, 97])) (- 1) = Fin (real (Suc n))"
    unfolding claimed_score_def q f fs Let_def
    using occ by (simp add: tt foldl_dadd_ones list_ex_iff del: replicate.simps)
  have h1: "[97::nat] = [] \<or> \<not> is_space_separator ?P (last [97])" using sep by simp
  have h2: "length [97::nat] < 2 ^ 32" by simp
  show ?thesis unfolding test_strings_closed_form [OF h1 h2] by (rule c)
qed


section \<open>A bound on the weighted score\<close>

text \<open>
  A query token that matches a field token is no longer than it, so that a term
  \<open>(length q)\<^sup>2 / length f\<close> is at most \<open>length q\<close>; there are no more
  field tokens than characters in the field, and the lengths of the query tokens add up
  to the length of the query at most. The score of a field is therefore NaN or a number
  between 0 and the product of the two lengths, for every query, also one that ends with
  a separator.
\<close>

fun bounded_by :: "dbl \<Rightarrow> real \<Rightarrow> bool" where
  "bounded_by (Fin y) x = (0 \<le> y \<and> y \<le> x)"
| "bounded_by NaN x = (0 \<le> x)"
| "bounded_by PInf x = False"
| "bounded_by MInf x = False"

lemma bounded_by_mono: "bounded_by s x \<Longrightarrow> x \<le> y \<Longrightarrow> bounded_by s y"
  by (cases s) simp_all

lemma bounded_by_dadd: "bounded_by s x \<Longrightarrow> bounded_by t y \<Longrightarrow> bounded_by (dadd s t) (x + y)"
  by (cases s; cases t) simp_all

lemma bounded_by_dmul: "bounded_by s x \<Longrightarrow> 0 \<le> c \<Longrightarrow> bounded_by (dmul s (Fin c)) (x * c)"
  by (cases s) (simp_all add: mult_right_mono)

lemma bounded_by_nonneg: "bounded_by s x \<Longrightarrow> 0 \<le> x"
  by (cases s) simp_all

lemma against_chars_loop_fits:
  "against_chars_loop P xs e against_len qs qe query_len 0 \<Longrightarrow> query_len \<le> against_len"
  by (cases xs) (simp_all add: gsize_sub_def split: if_splits)

lemma bounded_by_term:
  assumes "query_len \<le> against_len"
  shows "bounded_by (double_of_gsize_div (gsize_mul query_len query_len) against_len) (real query_len)"
proof (cases "against_len = 0")
  case True
  with assms show ?thesis by (simp add: double_of_gsize_div_def gsize_mul_def)
next
  case False
  have "real (gsize_mul query_len query_len) \<le> real (query_len * query_len)"
    unfolding gsize_mul_def by (intro of_nat_mono) simp
  also have "\<dots> \<le> real query_len * real against_len"
    using assms by (simp add: mult_left_mono)
  finally have "real (gsize_mul query_len query_len) / real against_len \<le> real query_len"
    using False by (simp add: pos_divide_le_eq)
  with False show ?thesis by (simp add: double_of_gsize_div_def)
qed

lemma bounded_by_against_tokens_loop:
  assumes "bounded_by score x"
  shows "bounded_by (fst (against_tokens_loop P toks qs qe query_len accept_min_size score has_match))
     (x + real query_len * real (length toks))"
  using assms
proof (induction toks arbitrary: score x has_match)
  case Nil
  then show ?case by simp
next
  case (Cons tok toks)
  obtain s e n where tok: "tok = (s, e, n)" by (cases tok)
  have step: "bounded_by (fst (against_tokens_loop P toks qs qe query_len accept_min_size score' h))
      (x + real query_len * real (length (tok # toks)))"
    if "bounded_by score' (x + real query_len)" for score' h
    using Cons.IH [OF that, of h] by (simp add: algebra_simps)
  have same: "bounded_by score (x + real query_len)"
    using Cons.prems by (rule bounded_by_mono) simp
  show ?case
  proof (cases "0 < accept_min_size \<and> int n < accept_min_size")
    case True
    then show ?thesis unfolding tok using step [OF same] by (simp add: tok)
  next
    case False
    show ?thesis
    proof (cases "against_chars_loop P s e n qs qe query_len 0")
      case True
      from against_chars_loop_fits [OF this]
      have "bounded_by (double_of_gsize_div (gsize_mul query_len query_len) n) (real query_len)"
        by (rule bounded_by_term)
      with Cons.prems
      have "bounded_by (dadd score (double_of_gsize_div (gsize_mul query_len query_len) n))
          (x + real query_len)"
        by (rule bounded_by_dadd)
      from step [OF this] True False show ?thesis by (auto simp: tok)
    next
      case nomatch: False
      with False step [OF same] show ?thesis by (auto simp: tok)
    qed
  qed
qed

definition token_lengths :: "(utf8 \<times> utf8 \<times> nat) list \<Rightarrow> nat" where
  "token_lengths toks = sum_list (map (\<lambda>(s, e, n). n) toks)"

lemma bounded_by_query_tokens_loop:
  assumes "bounded_by score x"
  shows "bounded_by (query_tokens_loop P toks against accept_min_size score)
     (x + real (token_lengths toks) * real (length (utf8_tokens P against)))"
  using assms
proof (induction toks arbitrary: score x)
  case Nil
  then show ?case by (simp add: token_lengths_def)
next
  case (Cons tok toks)
  obtain s e n where tok: "tok = (s, e, n)" by (cases tok)
  let ?k = "real (length (utf8_tokens P against))"
  obtain score' h where al: "against_tokens_loop P (utf8_tokens P against) s e n
      accept_min_size score False = (score', h)"
    by (cases "against_tokens_loop P (utf8_tokens P against) s e n accept_min_size score False")
  from bounded_by_against_tokens_loop [OF Cons.prems, of P "utf8_tokens P against" s e n
      accept_min_size False] al
  have w: "bounded_by score' (x + real n * ?k)" by simp
  show ?case
  proof (cases h)
    case False
    have "0 \<le> x" using Cons.prems by (rule bounded_by_nonneg)
    then have "bounded_by (Fin 0) (x + real (token_lengths (tok # toks)) * ?k)" by simp
    with False al show ?thesis by (simp add: tok)
  next
    case True
    from Cons.IH [OF w]
    have "bounded_by (query_tokens_loop P toks against accept_min_size score')
        (x + real (token_lengths (tok # toks)) * ?k)"
      by (simp add: tok token_lengths_def algebra_simps)
    with True al show ?thesis by (simp add: tok)
  qed
qed

lemma utf8_skip_loop_count:
  "utf8_skip_loop P p s skipped n = (s', e, m) \<Longrightarrow> m + length e \<le> n + length p"
proof (induction p arbitrary: s skipped n)
  case Nil
  then show ?case by simp
next
  case (Cons c cs)
  show ?case
  proof (cases "is_space_separator P c")
    case True
    show ?thesis
    proof (cases skipped)
      case True
      with \<open>is_space_separator P c\<close> Cons.prems show ?thesis by simp
    next
      case False
      with \<open>is_space_separator P c\<close> Cons.prems
      have "utf8_skip_loop P cs s skipped n = (s', e, m)" by simp
      from Cons.IH [OF this] show ?thesis by simp
    qed
  next
    case False
    with Cons.prems
    have "utf8_skip_loop P cs (if skipped then s else c # cs) True (Suc n) = (s', e, m)" by simp
    from Cons.IH [OF this] show ?thesis by simp
  qed
qed

lemma utf8_tokens_bounds:
  "length (utf8_tokens P s) \<le> length s \<and> token_lengths (utf8_tokens P s) \<le> length s"
proof (induction P s rule: utf8_tokens.induct)
  case (1 P s)
  obtain start e n where sk: "utf8_skip_to_next_of_class P s = (start, e, n)"
    by (cases "utf8_skip_to_next_of_class P s")
  show ?case
  proof (cases "start = []")
    case True
    with sk show ?thesis by (subst (1 2) utf8_tokens.simps) (simp add: token_lengths_def)
  next
    case False
    from utf8_skip_to_next_of_class_shorter [OF sk False] have lt: "length e < length s" .
    from sk have "n + length e \<le> length s"
      unfolding utf8_skip_to_next_of_class_def by (auto dest: utf8_skip_loop_count)
    moreover from 1 [of start "(e, n)" e n] sk False
    have "length (utf8_tokens P e) \<le> length e \<and> token_lengths (utf8_tokens P e) \<le> length e"
      by simp
    moreover have "utf8_tokens P s = (start, e, n) # utf8_tokens P e"
      using sk False by (subst utf8_tokens.simps) simp
    ultimately show ?thesis using lt by (simp add: token_lengths_def)
  qed
qed

lemma bounded_by_test_strings:
  "bounded_by (test_strings P query against accept_min_size)
     (real (length query) * real (length against))"
proof -
  have "bounded_by (Fin 0) 0" by simp
  from bounded_by_query_tokens_loop [OF this, of P "utf8_tokens P query" against accept_min_size]
  have "bounded_by (test_strings P query against accept_min_size)
      (real (token_lengths (utf8_tokens P query)) * real (length (utf8_tokens P against)))"
    by (simp add: test_strings_def)
  moreover have "real (token_lengths (utf8_tokens P query)) * real (length (utf8_tokens P against))
      \<le> real (length query) * real (length against)"
    using utf8_tokens_bounds [of P query] utf8_tokens_bounds [of P against]
    by (intro mult_mono) simp_all
  ultimately show ?thesis by (rule bounded_by_mono)
qed

definition field_length :: "utf8 option \<Rightarrow> nat" where
  "field_length s = (case s of None \<Rightarrow> 0 | Some s' \<Rightarrow> length s')"

lemma bounded_by_EVALUATE_STRING:
  "bounded_by (EVALUATE_STRING P q s accept_min_size) (real (length q) * real (field_length s))"
  by (cases s) (simp_all add: EVALUATE_STRING_def field_length_def bounded_by_test_strings)

definition score_bound :: "utf8 \<Rightarrow> entry_group \<Rightarrow> real" where
  "score_bound q grp =
     real (length q) *
       (2 * real (field_length (group_title grp)) + real (field_length (group_developer grp)) +
        real (field_length (group_description grp)) +
        3 / 2 * real (field_length (group_search_tokens grp)))"

lemma bounded_by_weighted_score: "bounded_by (weighted_score P q grp) (score_bound q grp)"
proof -
  have t: "bounded_by (dmul (EVALUATE_STRING P q (group_title grp) 2) (Fin 2))
      (real (length q) * real (field_length (group_title grp)) * 2)"
    by (rule bounded_by_dmul [OF bounded_by_EVALUATE_STRING]) simp
  have d: "bounded_by (dmul (EVALUATE_STRING P q (group_developer grp) 2) (Fin 1))
      (real (length q) * real (field_length (group_developer grp)) * 1)"
    by (rule bounded_by_dmul [OF bounded_by_EVALUATE_STRING]) simp
  have e: "bounded_by (dmul (EVALUATE_STRING P q (group_description grp) 3) (Fin 1))
      (real (length q) * real (field_length (group_description grp)) * 1)"
    by (rule bounded_by_dmul [OF bounded_by_EVALUATE_STRING]) simp
  have k: "bounded_by (dmul (EVALUATE_STRING P q (group_search_tokens grp) (- 1)) (Fin (3 / 2)))
      (real (length q) * real (field_length (group_search_tokens grp)) * (3 / 2))"
    by (rule bounded_by_dmul [OF bounded_by_EVALUATE_STRING]) simp
  have z: "bounded_by (Fin 0) 0" by simp
  from bounded_by_dadd [OF bounded_by_dadd [OF bounded_by_dadd [OF bounded_by_dadd [OF z t] d] e] k]
  show ?thesis
    by (simp add: weighted_score_def Let_def score_bound_def algebra_simps)
qed

text \<open>
  A candidate that no active bias boosts keeps the score it has before the biases; that
  score is \<open>G_MAXINT\<close> or the weighted score.
\<close>

definition boosted_by :: "'rx bias_data list \<Rightarrow> entry_group \<Rightarrow> bool" where
  \<comment> \<open>Some active bias has the identifier of the candidate in its boost table.\<close>
  "boosted_by active_biases grp =
     (case group_id grp of None \<Rightarrow> False | Some i \<Rightarrow> list_ex (in_boost i) active_biases)"

lemma final_score_not_boosted:
  assumes "lookup_safe act grp" and "group_searchable grp" and "\<not> boosted_by act grp"
  shows "final_score P q act grp = pre_bias_score P q grp"
proof (cases "group_id grp")
  case None
  with assms have "\<forall>b\<in>set act. boost b = None" by (simp add: lookup_safe_def)
  then show ?thesis by (simp add: final_score_def filter_in_boost_no_boost)
next
  case (Some i)
  with assms(3) have "filter (in_boost i) act = []"
    by (simp add: boosted_by_def list_ex_iff filter_empty_conv)
  with Some show ?thesis by (simp add: final_score_def)
qed

lemma pre_bias_score_bounded:
  assumes "score_bound q grp \<le> 2147483647"
  shows "bounded_by (pre_bias_score P q grp) 2147483647"
proof (cases "exact_match P q grp")
  case True
  then show ?thesis by (simp add: pre_bias_score_def G_MAXINT_def)
next
  case False
  with bounded_by_mono [OF bounded_by_weighted_score assms, of P]
  show ?thesis by (simp add: pre_bias_score_def)
qed

lemma at_or_above_bounded:
  assumes "result_score r = Some (Fin 2147483647)" and "result_score r' = Some s"
    and "bounded_by s 2147483647" and "dgt s (Fin 1)"
  shows "at_or_above r r'"
  using assms by (cases s) (auto simp: at_or_above_def)


section \<open>Example data\<close>

definition example_firefox :: entry_group where
  "example_firefox =
     \<lparr> group_id = Some (ascii ''org.mozilla.firefox''), group_title = Some (ascii ''Firefox''),
       group_developer = Some (ascii ''Mozilla''),
       group_description = Some (ascii ''web browser''),
       group_search_tokens = Some (ascii ''fire fox''), group_searchable = True \<rparr>"

definition example_fire :: entry_group where
  "example_fire =
     \<lparr> group_id = Some (ascii ''org.example.fire''), group_title = Some (ascii ''Fire tools''),
       group_developer = None, group_description = None, group_search_tokens = None,
       group_searchable = True \<rparr>"

definition example_hidden :: entry_group where
  "example_hidden =
     \<lparr> group_id = Some (ascii ''org.example.runtime''), group_title = Some (ascii ''Fire runtime''),
       group_developer = None, group_description = None, group_search_tokens = None,
       group_searchable = False \<rparr>"

definition example_engine :: "utf8 search_engine" where
  "example_engine =
     \<lparr> model = Some [example_fire, example_hidden, example_firefox], biases = None,
       biases_mirror = [] \<rparr>"

lemmas run_simps =
  bz_search_engine_query_def query_task_fiber_def query_sub_task_fiber_def n_sub_tasks_of_def
  work_offset_of_def work_length_of_def group_score_def pre_bias_score_def weighted_score_def
  exact_match_def EVALUATE_STRING_def boosted_def cmp_scores_def dlt_def dsub_def G_MAXINT_def
  g_array_sort.simps upt_rec Let_def

lemmas example_data =
  example_firefox_def example_fire_def example_hidden_def example_engine_def


definition example_rewrite_spec :: search_bias where
  "example_rewrite_spec =
     \<lparr> spec_regex = Some (ascii ''ff''), spec_convert_to = Some (ascii ''firefox''),
       spec_boost_appids = None, spec_linear_boost = None, spec_exponential_boost = None \<rparr>"

definition example_broken_spec :: search_bias where
  "example_broken_spec =
     \<lparr> spec_regex = Some (ascii ''fire''), spec_convert_to = None,
       spec_boost_appids = Some [ascii ''org.example.fire''],
       spec_linear_boost = Some (Fin 3, Fin 0), spec_exponential_boost = Some (Fin 2, Fin 0) \<rparr>"

definition example_boost_spec :: search_bias where
  "example_boost_spec =
     \<lparr> spec_regex = Some (ascii ''fire''), spec_convert_to = None,
       spec_boost_appids = Some [ascii ''org.mozilla.firefox''],
       spec_linear_boost = Some (Fin 2, Fin 1), spec_exponential_boost = None \<rparr>"

definition example_rewrite_bias :: "utf8 bias_data" where
  "example_rewrite_bias =
     \<lparr> invalid = False, regex = Some (ascii ''ff''), convert_to = Some (ascii ''firefox''),
       boost = None, boost_kind = LINEAR, slope_or_factor = Fin 0, y_intercept = Fin 0 \<rparr>"

definition example_boost_bias :: "utf8 bias_data" where
  "example_boost_bias =
     \<lparr> invalid = False, regex = Some (ascii ''fire''), convert_to = None,
       boost = Some {ascii ''org.mozilla.firefox''}, boost_kind = LINEAR,
       slope_or_factor = Fin 2, y_intercept = Fin 1 \<rparr>"

lemmas example_biases =
  example_rewrite_spec_def example_broken_spec_def example_boost_spec_def
  example_rewrite_bias_def example_boost_bias_def

lemma example_bias_data:
  "bias_data_of example_platform example_rewrite_spec = example_rewrite_bias"
  "bias_data_of example_platform example_broken_spec = SKIP"
  "bias_data_of example_platform example_boost_spec = example_boost_bias"
  by (simp_all add: bias_data_of_def example_biases bias_data_new_def SKIP_def
        example_platform_def)

definition example_specs :: "search_bias list" where
  "example_specs = [example_rewrite_spec, example_broken_spec, example_boost_spec]"

definition literal_match_whole :: "utf8 \<Rightarrow> utf8 \<Rightarrow> bool" where
  \<comment> \<open>A pattern without metacharacters matches the whole of a subject only when the
      subject is the pattern.\<close>
  "literal_match_whole pattern subject = (subject = pattern)"

definition example_blank :: entry_group where
  "example_blank =
     \<lparr> group_id = Some (ascii ''org.example.blank''), group_title = Some (ascii '' ''),
       group_developer = None, group_description = None, group_search_tokens = None,
       group_searchable = True \<rparr>"

definition example_space_bias :: "utf8 bias_data" where
  "example_space_bias =
     \<lparr> invalid = False, regex = Some (ascii '' ''), convert_to = None,
       boost = Some {ascii ''org.mozilla.firefox''}, boost_kind = LINEAR,
       slope_or_factor = Fin 0, y_intercept = Fin 5 \<rparr>"

definition example_push_bias :: "utf8 bias_data" where
  "example_push_bias =
     \<lparr> invalid = False, regex = Some (ascii ''fire''), convert_to = None,
       boost = Some {ascii ''org.example.fire''}, boost_kind = LINEAR,
       slope_or_factor = Fin 1, y_intercept = Fin 3000000000 \<rparr>"


lemmas example_more = example_blank_def example_space_bias_def example_push_bias_def

text \<open>
  A candidate whose title holds the title of another, a snapshot of 1025 candidates of
  which the last one only is searchable, and a candidate with \<open>2\<^sup>31\<close> search
  tokens \<open>a\<close>.
\<close>

definition example_suite :: entry_group where
  "example_suite =
     \<lparr> group_id = Some (ascii ''org.example.suite''), group_title = Some (ascii ''Fire Tools Plus''),
       group_developer = None, group_description = None, group_search_tokens = None,
       group_searchable = True \<rparr>"

definition example_suite_engine :: "utf8 search_engine" where
  "example_suite_engine =
     \<lparr> model = Some [example_suite, example_hidden, example_fire], biases = None,
       biases_mirror = [example_boost_bias] \<rparr>"

definition example_large :: "entry_group list" where
  "example_large = replicate 1024 example_hidden @ [example_fire]"

definition example_large_engine :: "utf8 search_engine" where
  "example_large_engine = \<lparr> model = Some example_large, biases = None, biases_mirror = [] \<rparr>"

lemma collect_replicate_Nil: "collect (replicate n (Inr []) @ [x]) = collect [x]"
  by (induction n) (simp_all add: collect_Cons split: sum.splits)

lemma example_large_scored:
  "map (scored example_platform (ascii ''fire'') [] example_large (Fin 1)) [0..<1025] =
     replicate 1024 (Inr []) @ [Inr [\<lparr> idx = 1024, val = Fin 8 \<rparr>]]"
proof -
  have hidden: "scored example_platform (ascii ''fire'') [] example_large (Fin 1) k = Inr []"
    if "k < 1024" for k
    using that
    by (simp add: scored_def group_score_def example_large_def nth_append example_hidden_def)
  have "example_large ! 1024 = example_fire"
    by (simp add: example_large_def nth_append)
  then have last: "scored example_platform (ascii ''fire'') [] example_large (Fin 1) 1024 =
      Inr [\<lparr> idx = 1024, val = Fin 8 \<rparr>]"
    by (simp add: scored_def example_simps run_simps example_data)
  have "[0..<1025] = [0..<1024] @ [1024]"
    using upt_Suc_append [of 0 1024] by simp
  moreover have "map (scored example_platform (ascii ''fire'') [] example_large (Fin 1)) [0..<1024] =
      replicate 1024 (Inr [])"
    by (rule nth_equalityI) (simp_all add: hidden)
  ultimately show ?thesis by (simp add: last)
qed

definition example_long :: entry_group where
  "example_long =
     \<lparr> group_id = Some (ascii ''org.example.long''), group_title = None,
       group_developer = None, group_description = None,
       group_search_tokens = Some (97 # concat (replicate 2147483647 [32, 97])),
       group_searchable = True \<rparr>"

section \<open>The claims\<close>

subsection \<open>C1\<close>

text \<open>
  C1, as the claim states it, fails. The tokens are split at the space separators
  (\<open>G_UNICODE_SPACE_SEPARATOR\<close>, the category Zs), not at every Unicode whitespace: the
  field \<open>a\<close>, line feed, \<open>bc\<close> is one token of length 4, in which the query \<open>b\<close>
  scores \<open>1 / 4\<close>, and not \<open>1 / 2\<close> as in a token \<open>bc\<close>.
\<close>

theorem score_differs_from_claim:
  "claimed_score unicode_white_space ascii_tolower [98] [97, 10, 98, 99] (- 1) = Fin (1 / 2) \<and>
   test_strings example_platform [98] [97, 10, 98, 99] (- 1) = Fin (1 / 4) \<and>
   test_strings example_platform [98] [97, 10, 98, 99] (- 1) \<noteq>
     claimed_score unicode_white_space ascii_tolower [98] [97, 10, 98, 99] (- 1)"
proof -
  have c: "claimed_score unicode_white_space ascii_tolower [98] [97, 10, 98, 99] (- 1) = Fin (1 / 2)"
    by (simp add: claimed_score_def token_terms_def whitespace_tokens.simps occurs_in_def
        accepted_def unicode_white_space_def ascii_tolower_def double_of_gsize_div_def)
  have t: "test_strings example_platform [98] [97, 10, 98, 99] (- 1) = Fin (1 / 4)"
    by (simp add: example_simps)
  show ?thesis unfolding c t by simp
qed

text \<open>
  C1, amended. For every query that does not end with a space separator (and is shorter
  than \<open>2\<^sup>32\<close> code points) and every field, \<open>test_strings\<close> returns the score of
  the claim, with the space separators as separators and \<open>g_unichar_tolower\<close> as case
  folding: 0.0 when some query token occurs in no accepted field token, and otherwise
  the terms \<open>(double) (length q)\<^sup>2 / (double) (length f)\<close> of the query tokens
  \<open>q\<close> and the accepted field tokens \<open>f\<close> in which \<open>q\<close> occurs, added to 0.0 in
  the order of the tokens, the query tokens first.
\<close>

theorem test_strings_is_claimed_score:
  assumes "query = [] \<or> \<not> is_space_separator P (last query)" and "length query < 2 ^ 32"
  shows "test_strings P query field accept_min_size =
     claimed_score (is_space_separator P) (g_unichar_tolower P) query field accept_min_size"
  using query_tokens_loop_eq [OF assms, of field accept_min_size "Fin 0"]
  by (simp add: test_strings_def claimed_score_def field_tokens_def Let_def)

text \<open>
  C1, amended, at the query \<open>ab c\<close> and the field \<open>xAbx c ab\<close>: the terms are 1 and
  2 for \<open>ab\<close> and 1 for \<open>c\<close>; with the minimum length 2 the field token \<open>c\<close> is
  left out and the score is 0.
\<close>

theorem test_strings_is_claimed_score_witness:
  "(ascii ''ab c'' = [] \<or> \<not> is_space_separator example_platform (last (ascii ''ab c''))) \<and>
   length (ascii ''ab c'') < 2 ^ 32 \<and>
   whitespace_tokens (is_space_separator example_platform) (ascii ''ab c'') =
     [ascii ''ab'', ascii ''c''] \<and>
   whitespace_tokens (is_space_separator example_platform) (ascii ''xAbx c ab'') =
     [ascii ''xAbx'', ascii ''c'', ascii ''ab''] \<and>
   claimed_score (is_space_separator example_platform) (g_unichar_tolower example_platform)
     (ascii ''ab c'') (ascii ''xAbx c ab'') (- 1) = foldl dadd (Fin 0) [Fin 1, Fin 2, Fin 1] \<and>
   test_strings example_platform (ascii ''ab c'') (ascii ''xAbx c ab'') (- 1) = Fin 4 \<and>
   claimed_score (is_space_separator example_platform) (g_unichar_tolower example_platform)
     (ascii ''ab c'') (ascii ''xAbx c ab'') 2 = Fin 0 \<and>
   test_strings example_platform (ascii ''ab c'') (ascii ''xAbx c ab'') 2 = Fin 0"
proof -
  have h1: "ascii ''ab c'' = [] \<or> \<not> is_space_separator example_platform (last (ascii ''ab c''))"
    by (simp add: example_simps)
  have h2: "length (ascii ''ab c'') < 2 ^ 32" by (simp add: ascii_def)
  have q: "whitespace_tokens (is_space_separator example_platform) (ascii ''ab c'') =
     [ascii ''ab'', ascii ''c'']"
    by (simp add: whitespace_tokens.simps example_simps)
  have f: "whitespace_tokens (is_space_separator example_platform) (ascii ''xAbx c ab'') =
     [ascii ''xAbx'', ascii ''c'', ascii ''ab'']"
    by (simp add: whitespace_tokens.simps example_simps)
  have c: "claimed_score (is_space_separator example_platform) (g_unichar_tolower example_platform)
     (ascii ''ab c'') (ascii ''xAbx c ab'') (- 1) = foldl dadd (Fin 0) [Fin 1, Fin 2, Fin 1]"
    unfolding claimed_score_def q f
    by (simp add: token_terms_def occurs_in_def accepted_def example_simps)
  have c2: "claimed_score (is_space_separator example_platform) (g_unichar_tolower example_platform)
     (ascii ''ab c'') (ascii ''xAbx c ab'') 2 = Fin 0"
    unfolding claimed_score_def q f
    by (simp add: token_terms_def occurs_in_def accepted_def example_simps)
  from test_strings_is_claimed_score [OF h1 h2, of "ascii ''xAbx c ab''" "- 1"] c
  have t: "test_strings example_platform (ascii ''ab c'') (ascii ''xAbx c ab'') (- 1) = Fin 4"
    by simp
  from test_strings_is_claimed_score [OF h1 h2, of "ascii ''xAbx c ab''" 2] c2
  have t2: "test_strings example_platform (ascii ''ab c'') (ascii ''xAbx c ab'') 2 = Fin 0"
    by simp
  from h1 h2 q f c t c2 t2 show ?thesis by (intro conjI)
qed

text \<open>
  The amended claim leaves out the queries that end with a separator. For them the
  tokenizer yields one more token, of length 0, that starts at the trailing separators
  (\<open>utf8_skip_to_next_of_class\<close> leaves \<open>*s\<close> there when no token follows). It matches
  no field token, or one of length 0, which adds \<open>0.0 / 0.0\<close>: the score is 0 or NaN.
\<close>

lemma trailing_space_in_query_scores_zero:
  "test_strings example_platform (ascii ''abc'') (ascii ''abc'') 2 = Fin 3 \<and>
   utf8_tokens example_platform (ascii ''abc '') = [(ascii ''abc '', ascii '' '', 3), (ascii '' '', [], 0)] \<and>
   test_strings example_platform (ascii ''abc '') (ascii ''abc'') 2 = Fin 0 \<and>
   test_strings example_platform (ascii ''abc '') (ascii ''abc '') (- 1) = NaN"
  by (simp add: example_simps)

subsection \<open>C2\<close>

text \<open>
  C2, as the claim states it, fails: the score of an exact match is \<open>G_MAXINT\<close>, which
  a bias can lift another candidate above. The query \<open>firefox\<close> is the title of
  Firefox; a bias that boosts the other candidate to 3000000000 ranks it first.
\<close>

theorem boosted_candidate_outranks_exact_match:
  "exact_match example_platform (ascii ''firefox'') example_firefox \<and>
   \<not> exact_match example_platform (ascii ''firefox'') example_fire \<and>
   bz_search_engine_query example_platform
       \<lparr> model = Some [example_firefox, example_fire], biases = None,
         biases_mirror = [example_push_bias] \<rparr> [ascii ''firefox''] =
     Inr \<lparr> interpreted_query = ascii ''firefox'',
           results = [\<lparr> result_group = example_fire, original_index = 1,
                        result_score = Some (Fin 3000000000) \<rparr>,
                      \<lparr> result_group = example_firefox, original_index = 0,
                        result_score = Some (Fin 2147483647) \<rparr>],
           n_results = 2 \<rparr>"
  by (simp add: example_simps run_simps example_data example_more)

text \<open>
  C2, amended. A searchable candidate whose identifier is the query (after the rewrites),
  or whose title is the query up to case, has the score \<open>G_MAXINT = 2147483647\<close> before
  the biases; the fields are not scored, and the biases whose boost table holds its
  identifier are applied to that score as to any other. In a query that takes the
  scoring path and resolves (every searchable candidate has an identifier, or no active
  bias has a boost table), when no active bias boosts the candidate, that is its final
  score and it is in the result list;
  it ranks at or above every result that no active bias boosts and whose weighted score
  the lengths keep within \<open>G_MAXINT\<close>, that is, with
  \<open>length query * (2 * length title + length developer + length description +
  1.5 * length search tokens) \<le> 2147483647\<close>: such a result has an equal or smaller
  score, and it stands before the candidate in the list only with the same score.
\<close>

theorem exact_match_scores_maxint:
  assumes "terms \<noteq> []" and "hd terms \<noteq> []" and "model self = Some snapshot"
    and ids: "\<forall>g\<in>set snapshot. group_searchable g \<longrightarrow>
        group_id g \<noteq> None \<or> (\<forall>b\<in>set act. boost b = None)"
    and bl: "biases_loop P (biases_mirror self) (g_strjoinv [32] terms) [] = (q, act)"
    and i: "i < length snapshot" "group_searchable (snapshot ! i)"
    and ex: "exact_match P q (snapshot ! i)"
    and nob: "\<not> boosted_by act (snapshot ! i)"
  shows "pre_bias_score P q (snapshot ! i) = Fin 2147483647 \<and>
     (group_id (snapshot ! i) = Some ident \<longrightarrow>
        group_score P q biases' (snapshot ! i) =
          Inr (Some (foldl (\<lambda>score bias. boosted P bias score) (Fin 2147483647)
                       (filter (in_boost ident) biases')))) \<and>
     group_score P q act (snapshot ! i) = Inr (Some (Fin 2147483647)) \<and>
     (\<exists>fin before r after.
        bz_search_engine_query P self terms = Inr fin \<and>
        results fin = before @ r # after \<and>
        original_index r = i \<and> result_score r = Some (Fin 2147483647) \<and>
        (\<forall>r'\<in>set (results fin).
           \<not> boosted_by act (result_group r') \<and> score_bound q (result_group r') \<le> 2147483647
           \<longrightarrow> at_or_above r r') \<and>
        (\<forall>r'\<in>set before.
           \<not> boosted_by act (result_group r') \<and> score_bound q (result_group r') \<le> 2147483647
           \<longrightarrow> result_score r' = Some (Fin 2147483647)))"
proof (intro conjI impI)
  show pre: "pre_bias_score P q (snapshot ! i) = Fin 2147483647"
    using ex by (simp add: pre_bias_score_def G_MAXINT_def)
  show "group_score P q biases' (snapshot ! i) =
      Inr (Some (foldl (\<lambda>score bias. boosted P bias score) (Fin 2147483647)
                   (filter (in_boost ident) biases')))"
    if "group_id (snapshot ! i) = Some ident"
    using that i(2) pre by (simp add: group_score_def active_biases_loop_Some)
  have safe: "\<forall>g\<in>set snapshot. lookup_safe act g"
    using ids by (simp add: lookup_safe_def)
  then have safe_i: "lookup_safe act (snapshot ! i)" using i(1) by simp
  have fs: "final_score P q act (snapshot ! i) = Fin 2147483647"
    using final_score_not_boosted [OF safe_i i(2) nob] pre by simp
  show gs: "group_score P q act (snapshot ! i) = Inr (Some (Fin 2147483647))"
    using safe_i i fs by (simp add: group_score_lookup_safe)
  have ne: "snapshot \<noteq> []" using i by auto
  have run: "bz_search_engine_query P self terms =
      query_task_fiber P terms snapshot (biases_mirror self)"
    using assms(1-3) ne by (simp add: bz_search_engine_query_def)
  from query_task_fiber_results [OF ids bl] obtain fin where fin:
    "query_task_fiber P terms snapshot (biases_mirror self) = Inr fin"
    "original_index ` set (results fin) =
       {i. i < length snapshot \<and> group_searchable (snapshot ! i) \<and>
           (\<exists>s. group_score P q act (snapshot ! i) = Inr (Some s) \<and> dgt s (Fin 1))}"
    "\<forall>r\<in>set (results fin).
        result_group r = snapshot ! original_index r \<and>
        group_score P q act (result_group r) = Inr (result_score r)"
    "sorted_wrt at_or_above (results fin)"
    by blast
  have "i \<in> original_index ` set (results fin)"
    unfolding fin(2) using i gs by simp
  then obtain r where r: "r \<in> set (results fin)" "original_index r = i" by auto
  from r(1) obtain before after where split: "results fin = before @ r # after"
    by (auto dest: split_list)
  from fin(3) r gs have score: "result_score r = Some (Fin 2147483647)" by auto
  have above: "at_or_above r r'"
    if r': "r' \<in> set (results fin)"
      and short: "\<not> boosted_by act (result_group r') \<and> score_bound q (result_group r') \<le> 2147483647"
    for r'
  proof -
    from r' have "original_index r' \<in> original_index ` set (results fin)" by simp
    then obtain s where k: "original_index r' < length snapshot"
        "group_searchable (snapshot ! original_index r')"
        "group_score P q act (snapshot ! original_index r') = Inr (Some s)" "dgt s (Fin 1)"
      unfolding fin(2) by auto
    from fin(3) r' have "result_group r' = snapshot ! original_index r' \<and>
        group_score P q act (result_group r') = Inr (result_score r')"
      by blast
    then have grp: "result_group r' = snapshot ! original_index r'"
      and rs: "group_score P q act (result_group r') = Inr (result_score r')"
      by blast+
    from k(1) safe have sf: "lookup_safe act (result_group r')" by (simp add: grp)
    from k(2) have se: "group_searchable (result_group r')" by (simp add: grp)
    from short have nb: "\<not> boosted_by act (result_group r')" by simp
    have "s = pre_bias_score P q (result_group r')"
      using k(3) final_score_not_boosted [OF sf se nb, of P q] sf se
      by (simp add: group_score_lookup_safe grp)
    with short have "bounded_by s 2147483647" by (simp add: pre_bias_score_bounded)
    moreover from rs k(3) have "result_score r' = Some s" by (simp add: grp)
    ultimately show ?thesis using score k(4) by (intro at_or_above_bounded)
  qed
  have tie: "result_score r' = Some (Fin 2147483647)"
    if r': "r' \<in> set before"
      and short: "\<not> boosted_by act (result_group r') \<and> score_bound q (result_group r') \<le> 2147483647"
    for r'
  proof -
    from r' have "r' \<in> set (results fin)" by (simp add: split)
    from above [OF this short] have a: "at_or_above r r'" .
    from fin(4) r' have b: "at_or_above r' r"
      unfolding split by (auto simp: sorted_wrt_append)
    from a b score show ?thesis
      by (auto simp: at_or_above_def dest: dgt_asym)
  qed
  have "bz_search_engine_query P self terms = Inr fin" using run fin(1) by simp
  with split r(2) score above tie
  show "\<exists>fin before r after.
        bz_search_engine_query P self terms = Inr fin \<and>
        results fin = before @ r # after \<and>
        original_index r = i \<and> result_score r = Some (Fin 2147483647) \<and>
        (\<forall>r'\<in>set (results fin).
           \<not> boosted_by act (result_group r') \<and> score_bound q (result_group r') \<le> 2147483647
           \<longrightarrow> at_or_above r r') \<and>
        (\<forall>r'\<in>set before.
           \<not> boosted_by act (result_group r') \<and> score_bound q (result_group r') \<le> 2147483647
           \<longrightarrow> result_score r' = Some (Fin 2147483647))"
    by - (rule exI [of _ fin], rule exI [of _ before], rule exI [of _ r], rule exI [of _ after],
          simp)
qed


text \<open>
  C2, amended, at the query \<open>fire tools\<close>, the title of one candidate up to case and
  a part of the title of another, with an active bias that boosts neither.
\<close>

theorem exact_match_scores_maxint_witness:
  "[ascii ''fire'', ascii ''tools''] \<noteq> [] \<and> hd [ascii ''fire'', ascii ''tools''] \<noteq> [] \<and>
   model example_suite_engine = Some [example_suite, example_hidden, example_fire] \<and>
   biases_loop example_platform (biases_mirror example_suite_engine)
     (g_strjoinv [32] [ascii ''fire'', ascii ''tools'']) [] =
     (ascii ''fire tools'', [example_boost_bias]) \<and>
   (2::nat) < length [example_suite, example_hidden, example_fire] \<and>
   group_searchable ([example_suite, example_hidden, example_fire] ! 2) \<and>
   exact_match example_platform (ascii ''fire tools'')
     ([example_suite, example_hidden, example_fire] ! 2) \<and>
   \<not> boosted_by [example_boost_bias] ([example_suite, example_hidden, example_fire] ! 2) \<and>
   \<not> boosted_by [example_boost_bias] example_suite \<and>
   score_bound (ascii ''fire tools'') example_suite = 300 \<and>
   bz_search_engine_query example_platform example_suite_engine [ascii ''fire'', ascii ''tools''] =
     Inr \<lparr> interpreted_query = ascii ''fire tools'',
           results = [\<lparr> result_group = example_fire, original_index = 2,
                        result_score = Some (Fin 2147483647) \<rparr>,
                      \<lparr> result_group = example_suite, original_index = 0,
                        result_score = Some (Fin 18) \<rparr>],
           n_results = 2 \<rparr> \<and>
   pre_bias_score example_platform (ascii ''fire tools'')
     ([example_suite, example_hidden, example_fire] ! 2) = Fin 2147483647 \<and>
   group_score example_platform (ascii ''fire tools'') [example_push_bias]
       ([example_suite, example_hidden, example_fire] ! 2) =
     Inr (Some (foldl (\<lambda>score bias. boosted example_platform bias score) (Fin 2147483647)
                  (filter (in_boost (ascii ''org.example.fire'')) [example_push_bias]))) \<and>
   foldl (\<lambda>score bias. boosted example_platform bias score) (Fin 2147483647)
     (filter (in_boost (ascii ''org.example.fire'')) [example_push_bias]) = Fin 5147483647 \<and>
   group_score example_platform (ascii ''fire tools'') [example_boost_bias]
     ([example_suite, example_hidden, example_fire] ! 2) = Inr (Some (Fin 2147483647)) \<and>
   (\<exists>fin before r after.
      bz_search_engine_query example_platform example_suite_engine
        [ascii ''fire'', ascii ''tools''] = Inr fin \<and>
      results fin = before @ r # after \<and>
      original_index r = 2 \<and> result_score r = Some (Fin 2147483647) \<and>
      (\<forall>r'\<in>set (results fin).
         \<not> boosted_by [example_boost_bias] (result_group r') \<and>
         score_bound (ascii ''fire tools'') (result_group r') \<le> 2147483647
         \<longrightarrow> at_or_above r r') \<and>
      (\<forall>r'\<in>set before.
         \<not> boosted_by [example_boost_bias] (result_group r') \<and>
         score_bound (ascii ''fire tools'') (result_group r') \<le> 2147483647
         \<longrightarrow> result_score r' = Some (Fin 2147483647)))"
proof -
  have h1: "[ascii ''fire'', ascii ''tools''] \<noteq> []"
    and h2: "hd [ascii ''fire'', ascii ''tools''] \<noteq> []"
    by (simp_all add: ascii_def)
  have h3: "model example_suite_engine = Some [example_suite, example_hidden, example_fire]"
    by (simp add: example_suite_engine_def)
  have h4: "\<forall>g\<in>set [example_suite, example_hidden, example_fire].
      group_searchable g \<longrightarrow> group_id g \<noteq> None \<or> (\<forall>b\<in>set [example_boost_bias]. boost b = None)"
    by (simp add: example_data example_suite_def)
  have h5: "biases_loop example_platform (biases_mirror example_suite_engine)
      (g_strjoinv [32] [ascii ''fire'', ascii ''tools'']) [] =
      (ascii ''fire tools'', [example_boost_bias])"
    by (simp add: example_suite_engine_def example_biases example_platform_def ascii_def)
  have h6: "(2::nat) < length [example_suite, example_hidden, example_fire]" by simp
  have h7: "group_searchable ([example_suite, example_hidden, example_fire] ! 2)"
    by (simp add: example_data)
  have h8: "exact_match example_platform (ascii ''fire tools'')
      ([example_suite, example_hidden, example_fire] ! 2)"
    by (simp add: exact_match_def example_data example_simps)
  have h9: "\<not> boosted_by [example_boost_bias] ([example_suite, example_hidden, example_fire] ! 2)"
    by (simp add: boosted_by_def in_boost_def example_data example_biases ascii_def)
  have s1: "\<not> boosted_by [example_boost_bias] example_suite"
    by (simp add: boosted_by_def in_boost_def example_suite_def example_biases ascii_def)
  have s2: "score_bound (ascii ''fire tools'') example_suite = 300"
    by (simp add: score_bound_def field_length_def example_suite_def ascii_def)
  have run: "bz_search_engine_query example_platform example_suite_engine
      [ascii ''fire'', ascii ''tools''] =
     Inr \<lparr> interpreted_query = ascii ''fire tools'',
           results = [\<lparr> result_group = example_fire, original_index = 2,
                        result_score = Some (Fin 2147483647) \<rparr>,
                      \<lparr> result_group = example_suite, original_index = 0,
                        result_score = Some (Fin 18) \<rparr>],
           n_results = 2 \<rparr>"
    by (simp add: example_suite_engine_def example_suite_def example_biases
        example_simps run_simps example_data)
  have id2: "group_id ([example_suite, example_hidden, example_fire] ! 2) =
      Some (ascii ''org.example.fire'')"
    by (simp add: example_data)
  note w = exact_match_scores_maxint [OF h1 h2 h3 h4 h5 h6 h7 h8 h9,
      where ident = "ascii ''org.example.fire''" and biases' = "[example_push_bias]"]
  note w1 = w [THEN conjunct1]
  note w2 = w [THEN conjunct2, THEN conjunct1, THEN mp, OF id2]
  note w3 = w [THEN conjunct2, THEN conjunct2, THEN conjunct1]
  note w4 = w [THEN conjunct2, THEN conjunct2, THEN conjunct2]
  have push: "foldl (\<lambda>score bias. boosted example_platform bias score) (Fin 2147483647)
     (filter (in_boost (ascii ''org.example.fire'')) [example_push_bias]) = Fin 5147483647"
    by (simp add: in_boost_def boosted_def example_more)
  from h1 h2 h3 h5 h6 h7 h8 h9 s1 s2 run w1 w2 push w3 w4 show ?thesis by (intro conjI)
qed

text \<open>
  The bound on the lengths is needed: with no bias at all, the query \<open>a\<close> scores
  \<open>1.5 * 2\<^sup>31\<close>, more than \<open>G_MAXINT\<close>, on a candidate whose search tokens are
  \<open>2\<^sup>31\<close> times \<open>a\<close>.
\<close>

lemma long_field_exceeds_maxint:
  "\<not> exact_match example_platform [97] example_long \<and>
   pre_bias_score example_platform [97] example_long = Fin 3221225472 \<and>
   dgt (Fin 3221225472) G_MAXINT"
proof -
  from test_strings_repeated [of 2147483647]
  have t: "test_strings example_platform [97] (97 # concat (replicate 2147483647 [32, 97])) (- 1) =
      Fin 2147483648"
    by simp
  have ne: "\<not> exact_match example_platform [97] example_long"
    by (simp add: exact_match_def example_long_def ascii_def)
  then have "pre_bias_score example_platform [97] example_long = Fin 3221225472"
    by (simp add: pre_bias_score_def weighted_score_def EVALUATE_STRING_def example_long_def t)
  with ne show ?thesis by (simp add: G_MAXINT_def)
qed

subsection \<open>C3\<close>

text \<open>
  C3, as the claim states it, fails: a bias is collected although its pattern matches a
  part of the working query only. The pattern \<open>fire\<close> is found in the query
  \<open>firefox\<close>, which it does not match as a whole.
\<close>

theorem bias_active_on_substring_match:
  "regex example_boost_bias = Some (ascii ''fire'') \<and>
   \<not> literal_match_whole (ascii ''fire'') (g_strjoinv [32] [ascii ''firefox'']) \<and>
   biases_loop example_platform [example_boost_bias] (g_strjoinv [32] [ascii ''firefox'']) [] =
     (ascii ''firefox'', [example_boost_bias])"
  by (simp add: example_biases literal_match_whole_def example_platform_def ascii_def)

text \<open>
  C3, amended. The biases are examined in the order of the table, each against the
  working query that the biases before it have left. A bias is collected exactly when
  it is not invalid and \<open>g_regex_match\<close> succeeds on the working query, which with
  \<open>G_REGEX_MATCH_DEFAULT\<close> means that the pattern matches somewhere in it. The working
  query of a collected bias that has a rewrite becomes the result of
  \<open>g_regex_replace\<close>, unless that is NULL; without a rewrite it stays.
\<close>

theorem biases_examined_in_table_order:
  assumes "biases_loop P pre q0 [] = (q, act)"
  shows "biases_loop P (pre @ bias # post) q0 [] =
       (if bias_matches P bias q
        then biases_loop P post (rewritten P bias q) (act @ [bias])
        else biases_loop P post q act) \<and>
     snd (biases_loop P (pre @ bias # post) q0 []) =
       act @ (if bias_matches P bias q then [bias] else []) @
       snd (biases_loop P post (if bias_matches P bias q then rewritten P bias q else q) []) \<and>
     bias_matches P bias q =
       (\<not> invalid bias \<and> (\<exists>rx. regex bias = Some rx \<and> g_regex_match P rx q)) \<and>
     (convert_to bias = None \<longrightarrow> rewritten P bias q = q) \<and>
     (regex bias = Some rx \<and> convert_to bias = Some replacement \<longrightarrow>
        rewritten P bias q =
          (case g_regex_replace P rx q replacement of None \<Rightarrow> q | Some tmp \<Rightarrow> tmp))"
proof (intro conjI)
  show step: "biases_loop P (pre @ bias # post) q0 [] =
       (if bias_matches P bias q
        then biases_loop P post (rewritten P bias q) (act @ [bias])
        else biases_loop P post q act)"
    by (simp add: biases_loop_append assms biases_loop_step del: biases_loop.simps(2))
  show "snd (biases_loop P (pre @ bias # post) q0 []) =
       act @ (if bias_matches P bias q then [bias] else []) @
       snd (biases_loop P post (if bias_matches P bias q then rewritten P bias q else q) [])"
    unfolding step
    by (subst (1 2) biases_loop_acc) simp
  show "bias_matches P bias q =
       (\<not> invalid bias \<and> (\<exists>rx. regex bias = Some rx \<and> g_regex_match P rx q))"
    by (simp add: bias_matches_def split: option.splits)
  show "convert_to bias = None \<longrightarrow> rewritten P bias q = q"
    by (simp add: rewritten_def split: option.splits)
  show "regex bias = Some rx \<and> convert_to bias = Some replacement \<longrightarrow>
        rewritten P bias q =
          (case g_regex_replace P rx q replacement of None \<Rightarrow> q | Some tmp \<Rightarrow> tmp)"
    by (simp add: rewritten_def)
qed

text \<open>C3, amended, at the table of the examples and the query \<open>ff\<close>.\<close>

theorem biases_examined_in_table_order_witness:
  "biases_loop example_platform [example_rewrite_bias, SKIP] (ascii ''ff'') [] =
     (ascii ''firefox'', [example_rewrite_bias]) \<and>
   bias_matches example_platform example_boost_bias (ascii ''firefox'') \<and>
   convert_to example_boost_bias = None \<and>
   biases_loop example_platform ([example_rewrite_bias, SKIP] @ example_boost_bias # []) (ascii ''ff'') [] =
     (ascii ''firefox'', [example_rewrite_bias, example_boost_bias])"
proof -
  have h: "biases_loop example_platform [example_rewrite_bias, SKIP] (ascii ''ff'') [] =
     (ascii ''firefox'', [example_rewrite_bias])"
    by (simp add: example_biases SKIP_def example_simps)
  have m: "bias_matches example_platform example_boost_bias (ascii ''firefox'')"
    by (simp add: bias_matches_def example_biases example_simps)
  have c: "convert_to example_boost_bias = None" by (simp add: example_biases)
  from biases_examined_in_table_order [OF h, of example_boost_bias "[]"] m c
  have "biases_loop example_platform ([example_rewrite_bias, SKIP] @ example_boost_bias # [])
      (ascii ''ff'') [] = (ascii ''firefox'', [example_rewrite_bias, example_boost_bias])"
    by simp
  with h m c show ?thesis by (intro conjI)
qed

subsection \<open>C4\<close>

text \<open>
  C4, as the claim states it, fails: a query whose joined string is whitespace is scored
  when its first term is not empty. The single term \<open>" "\<close> over three candidates
  resolves to no result at all, with the interpreted query \<open>" "\<close>.
\<close>

theorem whitespace_term_is_scored:
  "model example_engine = Some [example_fire, example_hidden, example_firefox] \<and>
   g_strjoinv [32] [ascii '' ''] = [32] \<and> is_space_separator example_platform 32 \<and>
   bz_search_engine_query example_platform example_engine [ascii '' ''] =
     Inr \<lparr> interpreted_query = [32], results = [], n_results = 0 \<rparr>"
  by (simp add: example_simps run_simps example_data)

text \<open>
  C4, amended. A call with at least one term, where the model is absent, the model is
  empty or the first term is the empty string, resolves (it is no error) to every
  candidate once, in the order of the snapshot, each without a score, and to the empty
  interpreted query.
\<close>

theorem trivial_query_returns_every_candidate:
  assumes "terms \<noteq> []"
    and "model self = None \<or> model self = Some [] \<or> hd terms = []"
    and "snapshot = (case model self of None \<Rightarrow> [] | Some m \<Rightarrow> m)"
  shows "\<exists>fin. bz_search_engine_query P self terms = Inr fin \<and>
     interpreted_query fin = [] \<and>
     n_results fin = length snapshot \<and>
     map original_index (results fin) = [0..<length snapshot] \<and>
     map result_group (results fin) = snapshot \<and>
     (\<forall>r\<in>set (results fin). result_score r = None)"
proof -
  from assms have "bz_search_engine_query P self terms = Inr (every_candidate snapshot)"
    by (simp add: bz_search_engine_query_cases)
  then show ?thesis
    using every_candidate_results [of snapshot] by (simp add: every_candidate_def)
qed

text \<open>C4, amended, at the terms \<open>""\<close>, \<open>"x"\<close> and the three candidates of the examples.\<close>

theorem trivial_query_returns_every_candidate_witness:
  "[[], ascii ''x''] \<noteq> [] \<and> hd [[], ascii ''x''] = [] \<and>
   [example_fire, example_hidden, example_firefox] =
     (case model example_engine of None \<Rightarrow> [] | Some m \<Rightarrow> m) \<and>
   (\<exists>fin. bz_search_engine_query example_platform example_engine [[], ascii ''x''] = Inr fin \<and>
     interpreted_query fin = [] \<and>
     n_results fin = length [example_fire, example_hidden, example_firefox] \<and>
     map original_index (results fin) = [0..<length [example_fire, example_hidden, example_firefox]] \<and>
     map result_group (results fin) = [example_fire, example_hidden, example_firefox] \<and>
     (\<forall>r\<in>set (results fin). result_score r = None))"
proof -
  have h1: "[[], ascii ''x''] \<noteq> []" by simp
  have h2: "hd [[], ascii ''x''] = []" by simp
  then have h2': "model example_engine = None \<or> model example_engine = Some [] \<or>
      hd [[], ascii ''x''] = []" by simp
  have h3: "[example_fire, example_hidden, example_firefox] =
     (case model example_engine of None \<Rightarrow> [] | Some m \<Rightarrow> m)"
    by (simp add: example_engine_def)
  note c = trivial_query_returns_every_candidate [OF h1 h2' h3, of example_platform]
  from h1 h2 h3 c show ?thesis by (intro conjI)
qed

subsection \<open>C5\<close>



subsection \<open>C6\<close>



subsection \<open>C7\<close>


text \<open>
  On every other query that takes the scoring path (the model has candidates and the
  first term is not empty) the claim holds: when every searchable candidate has an
  identifier, or no active bias has a boost table, the result list holds, once each,
  exactly the candidates of the snapshot that are searchable and whose final score,
  after the biases, is greater than 1.0; every result carries its candidate and that
  score; the list is in descending order of score. And the fault above is the outcome of
  every query that is not of this kind (lemma \<open>query_faults\<close>).
\<close>

lemma results_exact_and_sorted:
  assumes "terms \<noteq> []" and "hd terms \<noteq> []"
    and "model self = Some snapshot" and "snapshot \<noteq> []"
    and ids: "\<forall>g\<in>set snapshot. group_searchable g \<longrightarrow>
        group_id g \<noteq> None \<or> (\<forall>b\<in>set act. boost b = None)"
    and bl: "biases_loop P (biases_mirror self) (g_strjoinv [32] terms) [] = (q, act)"
  shows "\<exists>fin. bz_search_engine_query P self terms = Inr fin \<and>
     interpreted_query fin = q \<and>
     n_results fin = length (results fin) \<and>
     distinct (map original_index (results fin)) \<and>
     original_index ` set (results fin) =
       {i. i < length snapshot \<and> group_searchable (snapshot ! i) \<and>
           (\<exists>s. group_score P q act (snapshot ! i) = Inr (Some s) \<and> dgt s (Fin 1))} \<and>
     (\<forall>r\<in>set (results fin).
        result_group r = snapshot ! original_index r \<and>
        group_score P q act (result_group r) = Inr (result_score r)) \<and>
     sorted_wrt at_or_above (results fin)"
proof -
  have "bz_search_engine_query P self terms =
      query_task_fiber P terms snapshot (biases_mirror self)"
    using assms(1-4) by (simp add: bz_search_engine_query_def)
  with query_task_fiber_results [OF ids bl] show ?thesis by simp
qed

subsection \<open>C8\<close>

text \<open>
  C8. A query that takes the scoring path over a snapshot of \<open>n\<close> candidates runs
  \<open>max 1 (min (n div 512) processors)\<close> sub tasks and collects their scores. Sub task
  \<open>i\<close> starts at \<open>i * (n div count)\<close>; every sub task but the last takes
  \<open>n div count\<close> candidates and the last takes \<open>n mod count\<close> more. A sub task
  scores the candidates of its index range, one after the other, and no other. The index
  ranges of the sub tasks, one after the other, are exactly \<open>0, ..., n - 1\<close>, and an
  index lies in the range of exactly one sub task: the query is the scoring of every
  candidate of the snapshot, once, in the order of the snapshot.
\<close>

theorem shards_partition_snapshot:
  assumes "terms \<noteq> []" and "hd terms \<noteq> []"
    and "model self = Some snapshot" and "snapshot \<noteq> []"
    and bl: "biases_loop P (biases_mirror self) (g_strjoinv [32] terms) [] = (q, act)"
  shows "n_sub_tasks_of P (length snapshot) = max 1 (min (length snapshot div 512) (g_get_num_processors P)) \<and>
   work_offset_of P (length snapshot) i = i * (length snapshot div n_sub_tasks_of P (length snapshot)) \<and>
   (i < n_sub_tasks_of P (length snapshot) - 1 \<longrightarrow> work_length_of P (length snapshot) i = length snapshot div n_sub_tasks_of P (length snapshot)) \<and>
   work_length_of P (length snapshot) (n_sub_tasks_of P (length snapshot) - 1) =
     length snapshot div n_sub_tasks_of P (length snapshot) + length snapshot mod n_sub_tasks_of P (length snapshot) \<and>
   bz_search_engine_query P self terms =
     (case collect (map (\<lambda>i. query_sub_task_fiber P q snapshot (Fin 1)
                               (work_offset_of P (length snapshot) i) (work_length_of P (length snapshot) i) act)
                      [0..<n_sub_tasks_of P (length snapshot)]) of
        Inl f \<Rightarrow> Inl f
      | Inr scores \<Rightarrow> Inr (finished q snapshot scores)) \<and>
   (i < n_sub_tasks_of P (length snapshot) \<longrightarrow>
      query_sub_task_fiber P q snapshot (Fin 1) (work_offset_of P (length snapshot) i) (work_length_of P (length snapshot) i) act =
        collect (map (scored P q act snapshot (Fin 1))
                   [work_offset_of P (length snapshot) i ..< work_offset_of P (length snapshot) i + work_length_of P (length snapshot) i])) \<and>
   concat (map (\<lambda>i. [work_offset_of P (length snapshot) i ..< work_offset_of P (length snapshot) i + work_length_of P (length snapshot) i])
             [0..<n_sub_tasks_of P (length snapshot)]) = [0..<length snapshot] \<and>
   (j < length snapshot \<longrightarrow>
      (\<exists>!i. i < n_sub_tasks_of P (length snapshot) \<and> work_offset_of P (length snapshot) i \<le> j \<and>
            j < work_offset_of P (length snapshot) i + work_length_of P (length snapshot) i)) \<and>
   bz_search_engine_query P self terms =
     (case collect (map (scored P q act snapshot (Fin 1)) [0..<length snapshot]) of
        Inl f \<Rightarrow> Inl f
      | Inr scores \<Rightarrow> Inr (finished q snapshot scores))"
proof -
  have run: "bz_search_engine_query P self terms =
      query_task_fiber P terms snapshot (biases_mirror self)"
    using assms(1-4) by (simp add: bz_search_engine_query_def)
  show ?thesis
  proof (intro conjI impI)
    show "n_sub_tasks_of P (length snapshot) = max 1 (min (length snapshot div 512) (g_get_num_processors P))"
      by (simp add: n_sub_tasks_of_def)
    show "work_offset_of P (length snapshot) i = i * (length snapshot div n_sub_tasks_of P (length snapshot))"
      by (simp add: work_offset_of_def)
    show "work_length_of P (length snapshot) i = length snapshot div n_sub_tasks_of P (length snapshot)" if "i < n_sub_tasks_of P (length snapshot) - 1"
      using that by (simp add: work_length_of_def Let_def)
    show "work_length_of P (length snapshot) (n_sub_tasks_of P (length snapshot) - 1) =
        length snapshot div n_sub_tasks_of P (length snapshot) + length snapshot mod n_sub_tasks_of P (length snapshot)"
      by (simp add: work_length_of_def Let_def)
    show "bz_search_engine_query P self terms =
       (case collect (map (\<lambda>i. query_sub_task_fiber P q snapshot (Fin 1)
                                 (work_offset_of P (length snapshot) i) (work_length_of P (length snapshot) i) act)
                        [0..<n_sub_tasks_of P (length snapshot)]) of
          Inl f \<Rightarrow> Inl f
        | Inr scores \<Rightarrow> Inr (finished q snapshot scores))"
      unfolding run by (rule query_task_fiber_dispatch [OF bl])
    show "query_sub_task_fiber P q snapshot (Fin 1) (work_offset_of P (length snapshot) i) (work_length_of P (length snapshot) i) act =
        collect (map (scored P q act snapshot (Fin 1))
                   [work_offset_of P (length snapshot) i ..< work_offset_of P (length snapshot) i + work_length_of P (length snapshot) i])"
      if "i < n_sub_tasks_of P (length snapshot)"
      using shard_in_range [OF that] by (rule query_sub_task_fiber_collect)
    show "concat (map (\<lambda>i. [work_offset_of P (length snapshot) i ..< work_offset_of P (length snapshot) i + work_length_of P (length snapshot) i])
        [0..<n_sub_tasks_of P (length snapshot)]) = [0..<length snapshot]"
      by (rule shard_ranges_partition)
    show "\<exists>!i. i < n_sub_tasks_of P (length snapshot) \<and> work_offset_of P (length snapshot) i \<le> j \<and>
            j < work_offset_of P (length snapshot) i + work_length_of P (length snapshot) i" if "j < length snapshot"
      using that by (rule shard_of_index)
    show "bz_search_engine_query P self terms =
       (case collect (map (scored P q act snapshot (Fin 1)) [0..<length snapshot]) of
          Inl f \<Rightarrow> Inl f
        | Inr scores \<Rightarrow> Inr (finished q snapshot scores))"
      unfolding run by (rule query_task_fiber_collect [OF bl])
  qed
qed


text \<open>
  C8 at 1025 candidates and 4 processors: two sub tasks, of 512 and 513 candidates; the
  one searchable candidate, at index 1024, is scored by the second.
\<close>

theorem shards_partition_snapshot_witness:
  "[ascii ''fire''] \<noteq> [] \<and> hd [ascii ''fire''] \<noteq> [] \<and>
   model example_large_engine = Some example_large \<and> example_large \<noteq> [] \<and>
   biases_loop example_platform (biases_mirror example_large_engine)
     (g_strjoinv [32] [ascii ''fire'']) [] = (ascii ''fire'', []) \<and>
   length example_large = 1025 \<and>
   n_sub_tasks_of example_platform (length example_large) = 2 \<and>
   work_offset_of example_platform (length example_large) 0 = 0 \<and>
   work_length_of example_platform (length example_large) 0 = 512 \<and>
   work_offset_of example_platform (length example_large) 1 = 512 \<and>
   work_length_of example_platform (length example_large) 1 = 513 \<and>
   query_sub_task_fiber example_platform (ascii ''fire'') example_large (Fin 1)
       (work_offset_of example_platform (length example_large) 1)
       (work_length_of example_platform (length example_large) 1) [] =
     collect (map (scored example_platform (ascii ''fire'') [] example_large (Fin 1))
                [work_offset_of example_platform (length example_large) 1 ..<
                 work_offset_of example_platform (length example_large) 1 +
                 work_length_of example_platform (length example_large) 1]) \<and>
   concat (map (\<lambda>i. [work_offset_of example_platform (length example_large) i ..<
                      work_offset_of example_platform (length example_large) i +
                      work_length_of example_platform (length example_large) i])
             [0..<n_sub_tasks_of example_platform (length example_large)]) =
     [0..<length example_large] \<and>
   (\<exists>!i. i < n_sub_tasks_of example_platform (length example_large) \<and>
         work_offset_of example_platform (length example_large) i \<le> 1024 \<and>
         1024 < work_offset_of example_platform (length example_large) i +
                work_length_of example_platform (length example_large) i) \<and>
   bz_search_engine_query example_platform example_large_engine [ascii ''fire''] =
     Inr \<lparr> interpreted_query = ascii ''fire'',
           results = [\<lparr> result_group = example_fire, original_index = 1024,
                        result_score = Some (Fin 8) \<rparr>],
           n_results = 1 \<rparr>"
proof -
  have h1: "[ascii ''fire''] \<noteq> []" and h2: "hd [ascii ''fire''] \<noteq> []"
    by (simp_all add: ascii_def)
  have h3: "model example_large_engine = Some example_large"
    by (simp add: example_large_engine_def)
  have h4: "example_large \<noteq> []" by (simp add: example_large_def)
  have h5: "biases_loop example_platform (biases_mirror example_large_engine)
      (g_strjoinv [32] [ascii ''fire'']) [] = (ascii ''fire'', [])"
    by (simp add: example_large_engine_def)
  have len: "length example_large = 1025" by (simp add: example_large_def)
  have k: "n_sub_tasks_of example_platform (length example_large) = 2"
    by (simp add: len n_sub_tasks_of_def example_platform_def)
  have o0: "work_offset_of example_platform (length example_large) 0 = 0"
    and l0: "work_length_of example_platform (length example_large) 0 = 512"
    and o1: "work_offset_of example_platform (length example_large) 1 = 512"
    and l1: "work_length_of example_platform (length example_large) 1 = 513"
    using k by (simp_all add: work_offset_of_def work_length_of_def len)
  note c = shards_partition_snapshot [OF h1 h2 h3 h4 h5, where i = 1 and j = 1024]
  have i1: "(1::nat) < n_sub_tasks_of example_platform (length example_large)"
    by (simp add: k)
  have j: "(1024::nat) < length example_large" by (simp add: len)
  note shard = c [THEN conjunct2, THEN conjunct2, THEN conjunct2, THEN conjunct2,
      THEN conjunct2, THEN conjunct1, THEN mp, OF i1]
  note part = c [THEN conjunct2, THEN conjunct2, THEN conjunct2, THEN conjunct2,
      THEN conjunct2, THEN conjunct2, THEN conjunct1]
  note one = c [THEN conjunct2, THEN conjunct2, THEN conjunct2, THEN conjunct2,
      THEN conjunct2, THEN conjunct2, THEN conjunct2, THEN conjunct1, THEN mp, OF j]
  note total = c [THEN conjunct2, THEN conjunct2, THEN conjunct2, THEN conjunct2,
      THEN conjunct2, THEN conjunct2, THEN conjunct2, THEN conjunct2]
  have sort1: "g_array_sort cmp_scores [x] = [x]" for x :: Score
    by (simp add: g_array_sort.simps)
  have run: "bz_search_engine_query example_platform example_large_engine [ascii ''fire''] =
     Inr \<lparr> interpreted_query = ascii ''fire'',
           results = [\<lparr> result_group = example_fire, original_index = 1024,
                        result_score = Some (Fin 8) \<rparr>],
           n_results = 1 \<rparr>"
    unfolding total len example_large_scored collect_replicate_Nil
    by (simp add: collect_def finished_def to_result_def sort1 example_large_def nth_append)
  from h1 h2 h3 h4 h5 len k o0 l0 o1 l1 shard part one run show ?thesis by (intro conjI)
qed

subsection \<open>C9\<close>

text \<open>
  C9. The table built from a list of specifications has one entry for each, at the same
  position. The entry of a specification that lacks a pattern, whose pattern does not
  compile, that has neither a rewrite nor a boost list with a function, or that has
  both a linear and an exponential function, is the placeholder \<open>SKIP\<close>, whose
  \<open>invalid\<close> is set; no other entry is invalid. A later change of the source replaces
  the entries of the removed range by those of the added specifications. An invalid
  entry changes nothing in the loop over the table and is never among the active
  biases, which are all a shard worker sees.
\<close>

theorem rejected_specs_are_inert_placeholders:
  "length (biases_mirror (bz_search_engine_set_biases P self (Some specs))) = length specs \<and>
   (i < length specs \<longrightarrow>
      biases_mirror (bz_search_engine_set_biases P self (Some specs)) ! i =
        bias_data_of P (specs ! i) \<and>
      invalid (biases_mirror (bz_search_engine_set_biases P self (Some specs)) ! i) =
        spec_rejected P (specs ! i) \<and>
      (spec_rejected P (specs ! i) \<longrightarrow>
         biases_mirror (bz_search_engine_set_biases P self (Some specs)) ! i = SKIP)) \<and>
   (position + removed \<le> length mirror \<longrightarrow>
      biases_changed P mirror position removed added specs =
        take position mirror @ map (\<lambda>i. bias_data_of P (specs ! (position + i))) [0..<added] @
        drop (position + removed) mirror) \<and>
   (invalid bias \<longrightarrow>
      biases_loop P (pre @ bias # post) q act = biases_loop P (pre @ post) q act) \<and>
   (bias \<in> set (snd (biases_loop P table q [])) \<longrightarrow> \<not> invalid bias)"
  by (auto simp: set_biases_mirror bias_data_of_invalid bias_data_of_rejected
      biases_loop_skip_invalid biases_changed_eq dest: biases_loop_active_valid)

text \<open>C9 at the three specifications of the examples, the second of which has two functions.\<close>

theorem rejected_specs_are_inert_placeholders_witness:
  "length (biases_mirror (bz_search_engine_set_biases example_platform example_engine
             (Some example_specs))) = 3 \<and>
   (1::nat) < length example_specs \<and>
   spec_rejected example_platform (example_specs ! 1) \<and>
   biases_mirror (bz_search_engine_set_biases example_platform example_engine
     (Some example_specs)) = [example_rewrite_bias, SKIP, example_boost_bias] \<and>
   (0::nat) + 0 \<le> length ([] :: utf8 bias_data list) \<and>
   biases_changed example_platform [] 0 0 3 example_specs =
     [example_rewrite_bias, SKIP, example_boost_bias] \<and>
   invalid (SKIP :: utf8 bias_data) \<and>
   biases_loop example_platform ([example_rewrite_bias] @ SKIP # [example_boost_bias])
       (ascii ''ff'') [] =
     biases_loop example_platform ([example_rewrite_bias] @ [example_boost_bias]) (ascii ''ff'') [] \<and>
   example_boost_bias \<in> set (snd (biases_loop example_platform
       [example_rewrite_bias, SKIP, example_boost_bias] (ascii ''fire'') [])) \<and>
   \<not> invalid example_boost_bias"
proof -
  note w = rejected_specs_are_inert_placeholders
    [where P = example_platform and self = example_engine and specs = example_specs
       and i = 1 and position = 0 and removed = 0 and mirror = "[]" and added = 3
       and bias = SKIP and pre = "[example_rewrite_bias]" and post = "[example_boost_bias]"
       and q = "ascii ''ff''" and act = "[]"]
  note w' = rejected_specs_are_inert_placeholders
    [where P = example_platform and self = example_engine and specs = example_specs
       and i = 1 and position = 0 and removed = 0 and mirror = "[]" and added = 3
       and bias = example_boost_bias
       and table = "[example_rewrite_bias, SKIP, example_boost_bias]" and q = "ascii ''fire''"]
  have len: "(1::nat) < length example_specs" by (simp add: example_specs_def)
  have rej: "spec_rejected example_platform (example_specs ! 1)"
    by (simp add: example_specs_def spec_rejected_def example_biases)
  have inv: "invalid (SKIP :: utf8 bias_data)" by (simp add: SKIP_def)
  have act: "example_boost_bias \<in> set (snd (biases_loop example_platform
       [example_rewrite_bias, SKIP, example_boost_bias] (ascii ''fire'') []))"
    by (simp add: example_biases SKIP_def example_simps)
  have tbl: "biases_mirror (bz_search_engine_set_biases example_platform example_engine
     (Some example_specs)) = [example_rewrite_bias, SKIP, example_boost_bias]"
    by (simp add: set_biases_mirror example_specs_def example_bias_data)
  have chg: "biases_changed example_platform [] 0 0 3 example_specs =
     [example_rewrite_bias, SKIP, example_boost_bias]"
    using w [THEN conjunct2, THEN conjunct2, THEN conjunct1]
    by (simp add: example_specs_def example_bias_data upt_rec)
  have a: "length (biases_mirror (bz_search_engine_set_biases example_platform example_engine
             (Some example_specs))) = 3"
    using w [THEN conjunct1] by (simp add: example_specs_def)
  have z: "(0::nat) + 0 \<le> length ([] :: utf8 bias_data list)" by simp
  note d = w [THEN conjunct2, THEN conjunct2, THEN conjunct2, THEN conjunct1, THEN mp, OF inv]
  note e = w' [THEN conjunct2, THEN conjunct2, THEN conjunct2, THEN conjunct2, THEN mp, OF act]
  from a len rej tbl z chg inv d act e show ?thesis by (intro conjI)
qed

subsection \<open>C10\<close>

text \<open>
  C10, as the claim states it, fails in its last part: a query of one whitespace term can
  have results. A candidate whose title is that whitespace is an exact match, and a bias
  whose pattern matches the whitespace boosts the candidates of its table.
\<close>

theorem whitespace_term_can_have_results:
  "list_all (is_space_separator example_platform) (ascii '' '') \<and>
   bz_search_engine_query example_platform
       \<lparr> model = Some [example_blank], biases = None, biases_mirror = [] \<rparr> [ascii '' ''] =
     Inr \<lparr> interpreted_query = ascii '' '',
           results = [\<lparr> result_group = example_blank, original_index = 0,
                        result_score = Some (Fin 2147483647) \<rparr>],
           n_results = 1 \<rparr> \<and>
   bz_search_engine_query example_platform
       \<lparr> model = Some [example_fire, example_firefox], biases = None,
         biases_mirror = [example_space_bias] \<rparr> [ascii '' ''] =
     Inr \<lparr> interpreted_query = ascii '' '',
           results = [\<lparr> result_group = example_firefox, original_index = 1,
                        result_score = Some (Fin 5) \<rparr>],
           n_results = 1 \<rparr>"
  by (simp add: example_simps run_simps example_data example_more)

text \<open>
  C10, amended. With at least one term, the query resolves to every candidate, unranked,
  exactly in the first branch: when the model is absent or empty or the first term is
  empty; otherwise it is the result of \<open>query_task_fiber\<close>. So the terms \<open>""\<close>,
  \<open>"x"\<close> give every candidate, and a single term made of space separators runs the
  scoring path. That path returns no result when no bias of the table matches the term
  and no searchable candidate is an exact match of it.
\<close>

theorem trivial_path_condition:
  assumes "terms \<noteq> []"
  shows "bz_search_engine_query P self terms =
       (if model self = None \<or> model self = Some [] \<or> hd terms = []
        then Inr (every_candidate (case model self of None \<Rightarrow> [] | Some m \<Rightarrow> m))
        else query_task_fiber P terms (the (model self)) (biases_mirror self)) \<and>
     bz_search_engine_query P self [[], x] =
       Inr (every_candidate (case model self of None \<Rightarrow> [] | Some m \<Rightarrow> m)) \<and>
     map original_index (results (every_candidate snapshot)) = [0..<length snapshot] \<and>
     map result_group (results (every_candidate snapshot)) = snapshot \<and>
     map result_score (results (every_candidate snapshot)) = replicate (length snapshot) None \<and>
     (model self = Some snapshot \<and> snapshot \<noteq> [] \<and>
      t \<noteq> [] \<and> (\<forall>c\<in>set t. is_space_separator P c) \<and>
      (\<forall>b\<in>set (biases_mirror self). \<not> bias_matches P b t) \<and>
      (\<forall>g\<in>set snapshot. group_searchable g \<longrightarrow> \<not> exact_match P t g) \<longrightarrow>
      bz_search_engine_query P self [t] =
        query_task_fiber P [t] snapshot (biases_mirror self) \<and>
      bz_search_engine_query P self [t] =
        Inr \<lparr> interpreted_query = t, results = [], n_results = 0 \<rparr>)"
proof (intro conjI impI)
  show "bz_search_engine_query P self terms =
       (if model self = None \<or> model self = Some [] \<or> hd terms = []
        then Inr (every_candidate (case model self of None \<Rightarrow> [] | Some m \<Rightarrow> m))
        else query_task_fiber P terms (the (model self)) (biases_mirror self))"
    using assms by (rule bz_search_engine_query_cases)
  show "bz_search_engine_query P self [[], x] =
       Inr (every_candidate (case model self of None \<Rightarrow> [] | Some m \<Rightarrow> m))"
    by (simp add: bz_search_engine_query_cases)
  show "map original_index (results (every_candidate snapshot)) = [0..<length snapshot]"
    and "map result_group (results (every_candidate snapshot)) = snapshot"
    by (rule every_candidate_results)+
  show "map result_score (results (every_candidate snapshot)) = replicate (length snapshot) None"
    by (simp add: every_candidate_def comp_def map_replicate_const)
next
  assume h: "model self = Some snapshot \<and> snapshot \<noteq> [] \<and>
      t \<noteq> [] \<and> (\<forall>c\<in>set t. is_space_separator P c) \<and>
      (\<forall>b\<in>set (biases_mirror self). \<not> bias_matches P b t) \<and>
      (\<forall>g\<in>set snapshot. group_searchable g \<longrightarrow> \<not> exact_match P t g)"
  then show run: "bz_search_engine_query P self [t] =
      query_task_fiber P [t] snapshot (biases_mirror self)"
    by (simp add: bz_search_engine_query_cases)
  from h show "bz_search_engine_query P self [t] =
      Inr \<lparr> interpreted_query = t, results = [], n_results = 0 \<rparr>"
    unfolding run by (intro whitespace_query_no_results) simp_all
qed

text \<open>C10, amended, at the term \<open>" "\<close> and the three candidates of the examples.\<close>

theorem trivial_path_condition_witness:
  "[ascii '' ''] \<noteq> [] \<and>
   model example_engine = Some [example_fire, example_hidden, example_firefox] \<and>
   [example_fire, example_hidden, example_firefox] \<noteq> [] \<and>
   ascii '' '' \<noteq> [] \<and>
   list_all (is_space_separator example_platform) (ascii '' '') \<and>
   biases_mirror example_engine = [] \<and>
   \<not> exact_match example_platform (ascii '' '') example_fire \<and>
   \<not> exact_match example_platform (ascii '' '') example_hidden \<and>
   \<not> exact_match example_platform (ascii '' '') example_firefox \<and>
   bz_search_engine_query example_platform example_engine [ascii '' ''] =
     Inr \<lparr> interpreted_query = ascii '' '', results = [], n_results = 0 \<rparr> \<and>
   bz_search_engine_query example_platform example_engine [[], ascii ''x''] =
     Inr (every_candidate [example_fire, example_hidden, example_firefox])"
proof -
  have h0: "[ascii '' ''] \<noteq> []" by simp
  have h1: "model example_engine = Some [example_fire, example_hidden, example_firefox]"
    and h5: "biases_mirror example_engine = []"
    by (simp_all add: example_engine_def)
  have h2: "[example_fire, example_hidden, example_firefox] \<noteq> []" by simp
  have h3: "ascii '' '' \<noteq> []" by (simp add: ascii_def)
  have h4: "list_all (is_space_separator example_platform) (ascii '' '')"
    by (simp add: example_simps)
  have h6: "\<not> exact_match example_platform (ascii '' '') example_fire"
    "\<not> exact_match example_platform (ascii '' '') example_hidden"
    "\<not> exact_match example_platform (ascii '' '') example_firefox"
    by (simp_all add: exact_match_def example_data example_simps)
  note w = trivial_path_condition [OF h0, where P = example_platform and self = example_engine
    and snapshot = "[example_fire, example_hidden, example_firefox]" and t = "ascii '' ''"
    and x = "ascii ''x''"]
  have hyp: "model example_engine = Some [example_fire, example_hidden, example_firefox] \<and>
      [example_fire, example_hidden, example_firefox] \<noteq> [] \<and>
      ascii '' '' \<noteq> [] \<and> (\<forall>c\<in>set (ascii '' ''). is_space_separator example_platform c) \<and>
      (\<forall>b\<in>set (biases_mirror example_engine). \<not> bias_matches example_platform b (ascii '' '')) \<and>
      (\<forall>g\<in>set [example_fire, example_hidden, example_firefox].
         group_searchable g \<longrightarrow> \<not> exact_match example_platform (ascii '' '') g)"
    using h1 h3 h4 h6 by (simp add: h5 list_all_iff)
  note c1 = w [THEN conjunct2, THEN conjunct2, THEN conjunct2, THEN conjunct2, THEN conjunct2,
    THEN mp, OF hyp, THEN conjunct2]
  have c2: "bz_search_engine_query example_platform example_engine [[], ascii ''x''] =
     Inr (every_candidate [example_fire, example_hidden, example_firefox])"
    using w [THEN conjunct2, THEN conjunct1] by (simp add: h1)
  from h0 h1 h2 h3 h4 h5 h6 c1 c2 show ?thesis by (intro conjI)
qed

end
